theory Spec2Isabelle
  imports Main
begin

section \<open>JavaScript values\<close>

text \<open>
  The values that travel over the bus: primitives and plain objects. An object is a node
  that carries its identity (the address of the object in the heap) and its own enumerable
  properties in insertion order; arrays are objects whose keys are indices. Two nodes with
  different addresses are different references even when their contents agree. Numbers are
  the integers the bus itself handles (timeouts); \<open>JNaN\<close> stands for the not-a-number value.
\<close>

datatype jsval =
    JUndefined
  | JNull
  | JBool bool
  | JNum int
  | JNaN
  | JStr string
  | JObj nat "(string \<times> jsval) list"

datatype error =
    TypeError
  | InvalidRemote
  | TimeOut
  | CallbackError
  | SendError

text \<open>\<open>Boolean(v)\<close>, the truthiness that \<open>&&\<close>, \<open>||\<close> and \<open>if\<close> test.\<close>

fun truthy :: "jsval \<Rightarrow> bool" where
  "truthy JUndefined = False"
| "truthy JNull = False"
| "truthy (JBool b) = b"
| "truthy (JNum n) = (n \<noteq> 0)"
| "truthy JNaN = False"
| "truthy (JStr s) = (s \<noteq> [])"
| "truthy (JObj a ps) = True"

text \<open>
  The property read \<open>v.k\<close>, for the property names the bus reads (\<open>type\<close>, \<open>channel\<close>,
  \<open>payload\<close>, \<open>returnChannel\<close>, \<open>waiting\<close>, \<open>timeout\<close>), none of which a prototype defines:
  on \<open>null\<close> and \<open>undefined\<close> it throws a TypeError, on another primitive it is \<open>undefined\<close>,
  on an object it is the own property or \<open>undefined\<close>.
\<close>

fun get_prop :: "jsval \<Rightarrow> string \<Rightarrow> error + jsval" where
  "get_prop JUndefined k = Inl TypeError"
| "get_prop JNull k = Inl TypeError"
| "get_prop (JObj a ps) k = Inr (case map_of ps k of Some v \<Rightarrow> v | None \<Rightarrow> JUndefined)"
| "get_prop v k = Inr JUndefined"

text \<open>Strict equality \<open>===\<close>: objects by reference, \<open>NaN\<close> equal to nothing.\<close>

definition strict_eq :: "jsval \<Rightarrow> jsval \<Rightarrow> bool" where
  "strict_eq v w =
     (case (v, w) of
        (JUndefined, JUndefined) \<Rightarrow> True
      | (JNull, JNull) \<Rightarrow> True
      | (JBool a, JBool b) \<Rightarrow> a = b
      | (JNum a, JNum b) \<Rightarrow> a = b
      | (JStr a, JStr b) \<Rightarrow> a = b
      | (JObj a ps, JObj b qs) \<Rightarrow> a = b
      | _ \<Rightarrow> False)"

section \<open>MessageEnvelope.js\<close>

text \<open>\<open>MessageEnvelope.TYPE\<close>, the static getter.\<close>

definition TYPE_marker :: string where
  "TYPE_marker = ''electron-bus--message-envelope''"

text \<open>
  \<open>new MessageEnvelope(channel, payload, returnChannel)\<close>: the object allocated at address
  \<open>a\<close>, with its four enumerable properties in the order the constructor defines them.
\<close>

definition MessageEnvelope :: "nat \<Rightarrow> jsval \<Rightarrow> jsval \<Rightarrow> jsval \<Rightarrow> jsval" where
  "MessageEnvelope a channel payload returnChannel =
     JObj a [(''type'', JStr TYPE_marker), (''channel'', channel), (''payload'', payload),
             (''returnChannel'', returnChannel)]"

text \<open>
  \<open>Boolean(o && o.type && o.type === MessageEnvelope.TYPE)\<close>. The operands of \<open>&&\<close> are
  evaluated left to right and only while the ones before are truthy; a property read
  that throws makes the call throw.
\<close>

definition isEnvelope :: "jsval \<Rightarrow> error + bool" where
  "isEnvelope o' =
     (if \<not> truthy o' then Inr False
      else (case get_prop o' ''type'' of
              Inl e \<Rightarrow> Inl e
            | Inr t \<Rightarrow>
                (if \<not> truthy t then Inr False
                 else (case get_prop o' ''type'' of
                         Inl e \<Rightarrow> Inl e
                       | Inr t' \<Rightarrow> Inr (strict_eq t' (JStr TYPE_marker))))))"

text \<open>
  The values the constructor produces are recognised by their shape: exactly the four
  properties, in the constructor's order, with the marker on \<open>type\<close>.
\<close>

fun constructed :: "jsval \<Rightarrow> bool" where
  "constructed (JObj a [(k1, t), (k2, c), (k3, p), (k4, r)]) =
     (k1 = ''type'' \<and> t = JStr TYPE_marker \<and> k2 = ''channel'' \<and> k3 = ''payload'' \<and> k4 = ''returnChannel'')"
| "constructed v = False"

section \<open>ElectronBus.js: the state of a bus and of its process\<close>

text \<open>
  A subscriber is a function value, compared by reference. The callbacks the bus can hold
  are those of its users (named by a number) and the closure that a waiting \<open>dispatch\<close>
  subscribes to its return channel (named by the promise of the call that created it).
\<close>

datatype callback = User nat | ReturnPath nat

text \<open>
  The endpoints the set \<open>remotes\<close> can hold: \<open>ipcRenderer\<close>, or the \<open>webContents\<close> of a
  window.
\<close>

datatype remote = IpcRenderer | WebContents nat

text \<open>
  What a caller may hand to \<open>attach\<close>: an instance of \<open>BrowserWindow\<close> (whose \<open>webContents\<close>
  can \<open>send\<close>, and whose messages arrive on \<open>ipcMain\<close>), or any other object, described by
  the names of the methods it has.
\<close>

datatype remote_arg = BrowserWindow nat | OtherObject "string list"

datatype promise_state = Pending | Fulfilled jsval | Rejected error

text \<open>
  What a user's callback does when it is called: it returns, or it throws. Callbacks here
  do not call back into the bus while they run; a reply to a waiting request is a later
  \<open>dispatch\<close> or a message from a remote. The \<open>send\<close> of an endpoint, too, returns or
  throws: the \<open>webContents\<close> of a window that was destroyed throws.
\<close>

datatype behaviour = Returns | Throws

text \<open>
  The effects of the bus, in the order they happen. \<open>Invoked\<close> is the call of a subscriber
  and \<open>Threw\<close> its exception, if it threw; \<open>Sent\<close> is the call of the \<open>send\<close> of an endpoint
  and \<open>SendThrew\<close> its exception, if it threw.
\<close>

datatype event =
    Invoked callback jsval jsval
  | Threw callback error
  | Sent remote string jsval
  | SendThrew remote error
  | TimerSet nat nat jsval
  | TimerCleared nat
  | TimerFired nat
  | Unsubscribed string callback
  | ResolveCalled nat jsval
  | RejectCalled nat error

text \<open>
  The fields \<open>channels\<close> and \<open>remotes\<close> are those of the class: a Map from channel name to
  the Set of subscribers, and a Set of endpoints. A Set iterates in insertion order and
  holds no element twice, so it is a list without duplicates; the Map is never iterated,
  so it is a partial function. The rest is the process around the bus:
  \<^item> \<open>renderer\<close>: \<open>process.type === "renderer"\<close>;
  \<^item> \<open>listeners\<close>: how many times \<open>onRemoteMessage\<close> is registered on the IPC channel;
  \<^item> \<open>transport\<close>: what the \<open>send\<close> of each endpoint does when it is called now;
  \<^item> \<open>timers\<close>: the timers that are armed, each with the call whose timeout closure it
    runs and its delay; a timer that fired or was cleared is no longer there;
  \<^item> \<open>closures\<close>: for a waiting call, the constant \<open>returnChannel\<close> and the variable
    \<open>timer\<close> that its two closures share;
  \<^item> \<open>promises\<close>: the state of the promise each \<open>dispatch\<close> returned;
  \<^item> \<open>next_promise\<close>, \<open>next_timer\<close>, \<open>next_addr\<close>: the next fresh promise, timer id and
    object address;
  \<^item> \<open>trace\<close>: the effects so far.
\<close>

record world =
  channels :: "string \<rightharpoonup> callback list"
  remotes :: "remote list"
  renderer :: bool
  listeners :: nat
  transport :: "remote \<Rightarrow> behaviour"
  timers :: "nat \<rightharpoonup> nat \<times> jsval"
  closures :: "nat \<Rightarrow> string \<times> nat"
  promises :: "nat \<rightharpoonup> promise_state"
  next_promise :: nat
  next_timer :: nat
  next_addr :: nat
  trace :: "event list"

definition log :: "event \<Rightarrow> world \<Rightarrow> world" where
  "log e w = w\<lparr>trace := trace w @ [e]\<rparr>"

text \<open>\<open>Set.prototype.add\<close> and \<open>Set.prototype.delete\<close>.\<close>

definition set_add :: "'a \<Rightarrow> 'a list \<Rightarrow> 'a list" where
  "set_add x xs = (if x \<in> set xs then xs else xs @ [x])"

definition set_delete :: "'a \<Rightarrow> 'a list \<Rightarrow> 'a list" where
  "set_delete x xs = removeAll x xs"

section \<open>subscribe and unsubscribe\<close>

text \<open>
  \<open>subscribe(channel, callback)\<close>. The subscription object it returns holds one method,
  which calls \<open>unsubscribe(channel, callback)\<close>: it is the pair.
\<close>

definition subscribe :: "string \<Rightarrow> callback \<Rightarrow> world \<Rightarrow> (string \<times> callback) \<times> world" where
  "subscribe channel callback w =
     (let w1 = (if channels w channel = None
                then w\<lparr>channels := (channels w)(channel \<mapsto> [])\<rparr> else w);
          subscribers = (case channels w1 channel of Some s \<Rightarrow> s | None \<Rightarrow> [])
      in ((channel, callback),
          w1\<lparr>channels := (channels w1)(channel \<mapsto> set_add callback subscribers)\<rparr>))"

definition unsubscribe :: "string \<Rightarrow> callback \<Rightarrow> world \<Rightarrow> world" where
  "unsubscribe channel callback w =
     (case channels w channel of
        None \<Rightarrow> w
      | Some subscribers0 \<Rightarrow>
          (let subscribers = set_delete callback subscribers0;
               w1 = w\<lparr>channels := (channels w)(channel \<mapsto> subscribers)\<rparr>
           in if length subscribers = 0
              then w1\<lparr>channels := (channels w1)(channel := None)\<rparr>
              else w1))"

section \<open>The deep copy\<close>

text \<open>
  Modelled from the spec: \<open>clone\<close> is \<open>lodash.clonedeep\<close>, a dependency whose code is not
  part of the repository. The spec calls its result "a deep, independent copy": the same
  properties with the same primitive values, every object in it newly allocated. Here the
  copy takes its addresses from the supply \<open>n\<close> of fresh addresses and returns the supply
  that is left; a primitive is returned as it is.
\<close>

fun clone_val :: "nat \<Rightarrow> jsval \<Rightarrow> jsval \<times> nat"
  and clone_props :: "nat \<Rightarrow> (string \<times> jsval) list \<Rightarrow> (string \<times> jsval) list \<times> nat" where
  "clone_val n (JObj a ps) = (let (ps', n') = clone_props (Suc n) ps in (JObj n ps', n'))"
| "clone_val n JUndefined = (JUndefined, n)"
| "clone_val n JNull = (JNull, n)"
| "clone_val n (JBool b) = (JBool b, n)"
| "clone_val n (JNum i) = (JNum i, n)"
| "clone_val n JNaN = (JNaN, n)"
| "clone_val n (JStr s) = (JStr s, n)"
| "clone_props n [] = ([], n)"
| "clone_props n ((k, v) # ps) =
     (let (v', n1) = clone_val n v; (ps', n2) = clone_props n1 ps in ((k, v') # ps', n2))"

definition clone :: "jsval \<Rightarrow> world \<Rightarrow> jsval \<times> world" where
  "clone v w = (let (v', n) = clone_val (next_addr w) v in (v', w\<lparr>next_addr := n\<rparr>))"

text \<open>The addresses of the objects of a value: the references reachable from it.\<close>

fun addrs :: "jsval \<Rightarrow> nat set"
  and addrs_props :: "(string \<times> jsval) list \<Rightarrow> nat set" where
  "addrs (JObj a ps) = insert a (addrs_props ps)"
| "addrs JUndefined = {}"
| "addrs JNull = {}"
| "addrs (JBool b) = {}"
| "addrs (JNum i) = {}"
| "addrs JNaN = {}"
| "addrs (JStr s) = {}"
| "addrs_props [] = {}"
| "addrs_props ((k, v) # ps) = addrs v \<union> addrs_props ps"

text \<open>
  Deep equality: the same shape and primitive values, whatever the addresses. \<open>erase\<close>
  forgets the addresses.
\<close>

fun erase :: "jsval \<Rightarrow> jsval"
  and erase_props :: "(string \<times> jsval) list \<Rightarrow> (string \<times> jsval) list" where
  "erase (JObj a ps) = JObj 0 (erase_props ps)"
| "erase JUndefined = JUndefined"
| "erase JNull = JNull"
| "erase (JBool b) = JBool b"
| "erase (JNum i) = JNum i"
| "erase JNaN = JNaN"
| "erase (JStr s) = JStr s"
| "erase_props [] = []"
| "erase_props ((k, v) # ps) = (k, erase v) # erase_props ps"

definition deep_equal :: "jsval \<Rightarrow> jsval \<Rightarrow> bool" where
  "deep_equal v w = (erase v = erase w)"

text \<open>
  The assignment \<open>o.k = x\<close> on the object at address \<open>a\<close>, as a value that may reach that
  object sees it: every node with that address gets the property.
\<close>

fun assign_prop :: "string \<Rightarrow> jsval \<Rightarrow> (string \<times> jsval) list \<Rightarrow> (string \<times> jsval) list" where
  "assign_prop k x [] = [(k, x)]"
| "assign_prop k x ((k', v) # ps) = (if k' = k then (k, x) # ps else (k', v) # assign_prop k x ps)"

fun mutate :: "nat \<Rightarrow> string \<Rightarrow> jsval \<Rightarrow> jsval \<Rightarrow> jsval"
  and mutate_props :: "nat \<Rightarrow> string \<Rightarrow> jsval \<Rightarrow> (string \<times> jsval) list \<Rightarrow> (string \<times> jsval) list" where
  "mutate a k x (JObj b ps) =
     (if a = b then JObj b (assign_prop k x (mutate_props a k x ps))
      else JObj b (mutate_props a k x ps))"
| "mutate a k x JUndefined = JUndefined"
| "mutate a k x JNull = JNull"
| "mutate a k x (JBool b) = JBool b"
| "mutate a k x (JNum i) = JNum i"
| "mutate a k x JNaN = JNaN"
| "mutate a k x (JStr s) = JStr s"
| "mutate_props a k x [] = []"
| "mutate_props a k x ((k', v) # ps) = (k', mutate a k x v) # mutate_props a k x ps"

section \<open>Timers and promises\<close>

text \<open>
  \<open>setTimeout\<close> arms a timer under a fresh, positive id; \<open>clearTimeout\<close> disarms the timer
  with that id if there is one. \<open>resolve\<close> and \<open>reject\<close> settle a promise that is pending
  and do nothing to one that is settled.
\<close>

definition setTimeout :: "nat \<Rightarrow> jsval \<Rightarrow> world \<Rightarrow> nat \<times> world" where
  "setTimeout p delay w =
     (let t = next_timer w
      in (t, log (TimerSet t p delay)
               (w\<lparr>timers := (timers w)(t \<mapsto> (p, delay)), next_timer := Suc t\<rparr>)))"

definition clearTimeout :: "nat \<Rightarrow> world \<Rightarrow> world" where
  "clearTimeout t w = log (TimerCleared t) (w\<lparr>timers := (timers w)(t := None)\<rparr>)"

definition settle :: "nat \<Rightarrow> promise_state \<Rightarrow> world \<Rightarrow> world" where
  "settle p s w =
     (case promises w p of
        Some Pending \<Rightarrow> w\<lparr>promises := (promises w)(p \<mapsto> s)\<rparr>
      | _ \<Rightarrow> w)"

definition resolve :: "nat \<Rightarrow> jsval \<Rightarrow> world \<Rightarrow> world" where
  "resolve p v w = settle p (Fulfilled v) (log (ResolveCalled p v) w)"

definition reject :: "nat \<Rightarrow> error \<Rightarrow> world \<Rightarrow> world" where
  "reject p e w = settle p (Rejected e) (log (RejectCalled p e) w)"

section \<open>localDispatch\<close>

text \<open>The method of a subscription object: \<open>_ => this.unsubscribe(channel, callback)\<close>.\<close>

definition subscription_unsubscribe :: "string \<times> callback \<Rightarrow> world \<Rightarrow> world" where
  "subscription_unsubscribe s w =
     log (Unsubscribed (fst s) (snd s)) (unsubscribe (fst s) (snd s) w)"

text \<open>
  The closure a waiting \<open>dispatch\<close> subscribes to its return channel:
  \<open>response => { clearTimeout(timer); returnPath.unsubscribe(); resolve(response); }\<close>.
\<close>

definition return_path :: "nat \<Rightarrow> jsval \<Rightarrow> world \<Rightarrow> world" where
  "return_path p response w =
     (let (returnChannel, timer) = closures w p;
          w1 = clearTimeout timer w;
          w2 = subscription_unsubscribe (returnChannel, ReturnPath p) w1
      in resolve p response w2)"

text \<open>
  \<open>callback(arg, returnChannel)\<close>: the result is the exception, if the call threw, and
  the state it left.
\<close>

fun invoke :: "(nat \<Rightarrow> behaviour) \<Rightarrow> callback \<Rightarrow> jsval \<Rightarrow> jsval \<Rightarrow> world \<Rightarrow> error option \<times> world" where
  "invoke beh (User u) arg ret w =
     (case beh u of
        Returns \<Rightarrow> (None, w)
      | Throws \<Rightarrow> (Some CallbackError, log (Threw (User u) CallbackError) w))"
| "invoke beh (ReturnPath p) arg ret w = (None, return_path p arg w)"

text \<open>
  The loop \<open>for (const callback of this.channels.get(channel)) callback(clone(payload),
  returnChannel)\<close>. An exception leaves the loop. The loop runs over the subscribers in
  insertion order; the only change a callback of this model makes to the Set while the
  loop runs is to delete itself, which the iteration over the elements after it does not
  see, so the loop is over the elements the Set had when it started.
\<close>

fun deliver :: "(nat \<Rightarrow> behaviour) \<Rightarrow> callback list \<Rightarrow> jsval \<Rightarrow> jsval \<Rightarrow> world \<Rightarrow> error option \<times> world" where
  "deliver beh [] payload ret w = (None, w)"
| "deliver beh (callback # rest) payload ret w =
     (let (copy, w1) = clone payload w;
          (exn, w2) = invoke beh callback copy ret (log (Invoked callback copy ret) w1)
      in (case exn of
            Some e \<Rightarrow> (Some e, w2)
          | None \<Rightarrow> deliver beh rest payload ret w2))"

text \<open>
  \<open>async localDispatch(channel, payload, returnChannel)\<close>. The body has no \<open>await\<close>: it runs
  to its end when it is called. Being \<open>async\<close>, an exception of the body rejects the promise
  the call returns, which nobody holds, and does not reach the caller.
\<close>

definition localDispatch :: "(nat \<Rightarrow> behaviour) \<Rightarrow> string \<Rightarrow> jsval \<Rightarrow> jsval \<Rightarrow> world \<Rightarrow> world" where
  "localDispatch beh channel payload returnChannel w =
     (case channels w channel of
        None \<Rightarrow> w
      | Some subscribers \<Rightarrow> snd (deliver beh subscribers payload returnChannel w))"

section \<open>dispatch\<close>

definition CHANNEL :: string where
  "CHANNEL = ''electron-bus--message''"

text \<open>
  \<open>parseInt(Number.MAX_SAFE_INTEGER * Math.random(), 10).toString(36)\<close>: the random draw is
  an integer \<open>rnd\<close>, written in base 36.
\<close>

definition digit36 :: "nat \<Rightarrow> char" where
  "digit36 d = ''0123456789abcdefghijklmnopqrstuvwxyz'' ! d"

function base36 :: "nat \<Rightarrow> string" where
  "base36 n = (if n < 36 then [digit36 n] else base36 (n div 36) @ [digit36 (n mod 36)])"
  by pat_completeness auto
termination
  by (relation "measure id") auto

declare base36.simps [simp del]

text \<open>
  \<open>const {waiting, timeout} = Object(options)\<close>: a property of the options object, and
  \<open>undefined\<close> when the options are not an object.
\<close>

definition option_field :: "jsval \<Rightarrow> string \<Rightarrow> jsval" where
  "option_field options k =
     (case options of
        JObj a ps \<Rightarrow> (case map_of ps k of Some v \<Rightarrow> v | None \<Rightarrow> JUndefined)
      | _ \<Rightarrow> JUndefined)"

text \<open>The deadline that is armed: \<open>timeout || 15000\<close>.\<close>

definition deadline :: "jsval \<Rightarrow> jsval" where
  "deadline timeout = (if truthy timeout then timeout else JNum 15000)"

text \<open>
  The loop \<open>for (const remote of this.remotes)\<close>: a new envelope for each endpoint, sent
  on the internal channel. \<open>send\<close> belongs to the transport: the call is the effect \<open>Sent\<close>,
  and it returns or throws as the transport has it. The loop has no \<open>try\<close>: an exception
  leaves it, and the endpoints after the one that threw get nothing. The result is the
  exception, if a \<open>send\<close> threw, and the state the loop left.
\<close>

fun relay :: "remote list \<Rightarrow> string \<Rightarrow> jsval \<Rightarrow> jsval \<Rightarrow> world \<Rightarrow> error option \<times> world" where
  "relay [] channel payload returnChannel w = (None, w)"
| "relay (remote # rest) channel payload returnChannel w =
     (let message = MessageEnvelope (next_addr w) (JStr channel) payload returnChannel;
          w1 = log (Sent remote CHANNEL message) (w\<lparr>next_addr := Suc (next_addr w)\<rparr>)
      in (case transport w1 remote of
            Throws \<Rightarrow> (Some SendError, log (SendThrew remote SendError) w1)
          | Returns \<Rightarrow> relay rest channel payload returnChannel w1))"

text \<open>
  \<open>new Promise(executor)\<close> calls the executor and catches what it throws: it calls \<open>reject\<close>
  with the exception, which settles the promise if it is still pending. The caller gets
  the promise either way.
\<close>

definition caught :: "nat \<Rightarrow> error option \<times> world \<Rightarrow> world" where
  "caught p r =
     (case fst r of
        None \<Rightarrow> snd r
      | Some e \<Rightarrow> reject p e (snd r))"

text \<open>
  \<open>dispatch(channel, payload, options)\<close>, with the random draw \<open>rnd\<close> of the call. The
  executor of the promise runs when the promise is made; the result is the promise and
  the state after the call. The only statement of the executor that can throw is the
  \<open>send\<close> of the relay (\<open>localDispatch\<close> is \<open>async\<close>, and keeps its exceptions): it ends the
  executor, and the promise is rejected with the exception unless the call did not wait,
  in which case the promise is fulfilled already.
\<close>

definition dispatch :: "(nat \<Rightarrow> behaviour) \<Rightarrow> string \<Rightarrow> jsval \<Rightarrow> jsval \<Rightarrow> nat \<Rightarrow> world \<Rightarrow> nat \<times> world" where
  "dispatch beh channel payload options rnd w0 =
     (let p = next_promise w0;
          w = w0\<lparr>promises := (promises w0)(p \<mapsto> Pending), next_promise := Suc p\<rparr>;
          waiting = option_field options ''waiting'';
          timeout = option_field options ''timeout'';
          (returnChannel, w4) =
            (if truthy waiting then
               (let rc = channel @ ''-'' @ base36 rnd;
                    w1 = w\<lparr>closures := (closures w)(p := (rc, 0))\<rparr>;
                    (returnPath, w2) = subscribe rc (ReturnPath p) w1;
                    (timer, w3) = setTimeout p (deadline timeout) w2
                in (JStr rc, w3\<lparr>closures := (closures w3)(p := (rc, timer))\<rparr>))
             else (JUndefined, resolve p JUndefined w));
          w5 = localDispatch beh channel payload returnChannel w4;
          w6 = caught p (relay (remotes w5) channel payload returnChannel w5)
      in (p, w6))"

text \<open>The closure the timer runs: \<open>_ => { returnPath.unsubscribe(); reject(new Error("Time out")); }\<close>.\<close>

definition on_timeout :: "nat \<Rightarrow> world \<Rightarrow> world" where
  "on_timeout p w =
     (let (returnChannel, timer) = closures w p;
          w1 = subscription_unsubscribe (returnChannel, ReturnPath p) w
      in reject p TimeOut w1)"

text \<open>
  The event loop fires a timer that is armed, once: the timer leaves the armed timers and
  its closure runs. A timer that is not armed never fires.
\<close>

definition fire :: "nat \<Rightarrow> world \<Rightarrow> world" where
  "fire t w =
     (case timers w t of
        None \<Rightarrow> w
      | Some (p, delay) \<Rightarrow> on_timeout p (log (TimerFired t) (w\<lparr>timers := (timers w)(t := None)\<rparr>)))"

section \<open>Remotes\<close>

text \<open>
  \<open>isBrowserWindow(w)\<close> is \<open>Boolean(BrowserWindow && w instanceof BrowserWindow)\<close>; the class
  \<open>BrowserWindow\<close> is defined in the main process only.
\<close>

definition isBrowserWindow :: "world \<Rightarrow> remote_arg \<Rightarrow> bool" where
  "isBrowserWindow w r =
     (\<not> renderer w \<and> (case r of BrowserWindow n \<Rightarrow> True | OtherObject ms \<Rightarrow> False))"

definition attach :: "remote_arg \<Rightarrow> world \<Rightarrow> error + world" where
  "attach r w =
     (if isBrowserWindow w r = False then Inl InvalidRemote
      else (case r of
              BrowserWindow n \<Rightarrow>
                Inr (w\<lparr>remotes := set_add (WebContents n) (remotes w),
                       listeners := Suc (listeners w)\<rparr>)
            | OtherObject ms \<Rightarrow> Inl TypeError))"

text \<open>
  The capability a remote needs: a \<open>send\<close> to reach it and an \<open>on\<close> to hear from it. The
  \<open>webContents\<close> of a window sends, and its messages are heard on \<open>ipcMain\<close>.
\<close>

definition capable :: "remote_arg \<Rightarrow> bool" where
  "capable r =
     (case r of
        BrowserWindow n \<Rightarrow> True
      | OtherObject ms \<Rightarrow> ''send'' \<in> set ms \<and> ''on'' \<in> set ms)"

text \<open>\<open>new ElectronBus(remote)\<close> in a process that is, or is not, a renderer.\<close>

definition empty_world :: "bool \<Rightarrow> world" where
  "empty_world r =
     \<lparr>channels = Map.empty, remotes = [], renderer = r, listeners = 0,
      transport = (\<lambda>x. Returns), timers = Map.empty, closures = (\<lambda>p. ([], 0)), promises = Map.empty,
      next_promise = 0, next_timer = 1, next_addr = 0, trace = []\<rparr>"

definition constructor :: "bool \<Rightarrow> remote_arg option \<Rightarrow> error + world" where
  "constructor r remote =
     (let w = empty_world r
      in if renderer w then Inr (w\<lparr>remotes := set_add IpcRenderer (remotes w), listeners := Suc (listeners w)\<rparr>)
         else (case remote of
                 Some x \<Rightarrow> attach x w
               | None \<Rightarrow> Inr w))"

text \<open>
  \<open>onRemoteMessage(ignore, data)\<close>. A channel that is not a string has no subscribers,
  since \<open>subscribe\<close> takes strings.
\<close>

definition onRemoteMessage :: "(nat \<Rightarrow> behaviour) \<Rightarrow> jsval \<Rightarrow> world \<Rightarrow> error + world" where
  "onRemoteMessage beh data w =
     (case isEnvelope data of
        Inl e \<Rightarrow> Inl e
      | Inr False \<Rightarrow> Inr w
      | Inr True \<Rightarrow>
          (case (get_prop data ''channel'', get_prop data ''payload'', get_prop data ''returnChannel'') of
             (Inr channel, Inr payload, Inr returnChannel) \<Rightarrow>
               (case channel of
                  JStr c \<Rightarrow> Inr (localDispatch beh c payload returnChannel w)
                | _ \<Rightarrow> Inr w)
           | _ \<Rightarrow> Inl TypeError))"

text \<open>
  A message on the internal channel is given to every registered listener in turn; an
  exception of a listener ends the turn.
\<close>

fun emit :: "(nat \<Rightarrow> behaviour) \<Rightarrow> nat \<Rightarrow> jsval \<Rightarrow> world \<Rightarrow> world" where
  "emit beh 0 data w = w"
| "emit beh (Suc n) data w =
     (case onRemoteMessage beh data w of
        Inl e \<Rightarrow> w
      | Inr w' \<Rightarrow> emit beh n data w')"

section \<open>Runs\<close>

text \<open>
  What happens to a bus, one turn of the event loop at a time: its user calls a method,
  a message arrives from a remote, an armed timer fires, or the \<open>send\<close> of an endpoint
  starts to throw or to return (a window is destroyed, say).
\<close>

datatype input =
    Subscribe string nat
  | Unsubscribe string nat
  | Dispatch string jsval jsval nat
  | Attach remote_arg
  | RemoteMessage jsval
  | TimerFires nat
  | TransportChanges remote behaviour

text \<open>
  The values that come from outside (the payload and the options a caller built, the data
  a transport deserialised) are objects of this process: building them allocates their
  objects, on fresh addresses.
\<close>

definition allocate :: "jsval \<Rightarrow> world \<Rightarrow> jsval \<times> world" where
  "allocate v w = (let (v', n) = clone_val (next_addr w) v in (v', w\<lparr>next_addr := n\<rparr>))"

fun step :: "(nat \<Rightarrow> behaviour) \<Rightarrow> world \<Rightarrow> input \<Rightarrow> world" where
  "step beh w (Subscribe c u) = snd (subscribe c (User u) w)"
| "step beh w (Unsubscribe c u) = unsubscribe c (User u) w"
| "step beh w (Dispatch c payload options rnd) =
     (let (payload', w1) = allocate payload w;
          (options', w2) = allocate options w1
      in snd (dispatch beh c payload' options' rnd w2))"
| "step beh w (Attach r) = (case attach r w of Inl e \<Rightarrow> w | Inr w' \<Rightarrow> w')"
| "step beh w (RemoteMessage data) =
     (let (data', w1) = allocate data w in emit beh (listeners w1) data' w1)"
| "step beh w (TimerFires t) = fire t w"
| "step beh w (TransportChanges x b) = w\<lparr>transport := (transport w)(x := b)\<rparr>"

definition run :: "(nat \<Rightarrow> behaviour) \<Rightarrow> world \<Rightarrow> input list \<Rightarrow> world" where
  "run beh w ins = foldl (step beh) w ins"

text \<open>The subscribers of a channel, as a set; none when the channel is not in the Map.\<close>

definition subscribers_of :: "world \<Rightarrow> string \<Rightarrow> callback set" where
  "subscribers_of w c = (case channels w c of None \<Rightarrow> {} | Some s \<Rightarrow> set s)"

section \<open>Reading a trace\<close>

text \<open>
  A callback throws when it is a user's callback that throws; the closure of a waiting
  \<open>dispatch\<close> has no statement that throws.
\<close>

fun throws :: "(nat \<Rightarrow> behaviour) \<Rightarrow> callback \<Rightarrow> bool" where
  "throws beh (User u) = (beh u = Throws)"
| "throws beh (ReturnPath p) = False"

text \<open>The subscribers a loop over \<open>cbs\<close> reaches: those up to the first that throws, and it.\<close>

fun reached :: "(nat \<Rightarrow> behaviour) \<Rightarrow> callback list \<Rightarrow> callback list" where
  "reached beh [] = []"
| "reached beh (cb # rest) = (if throws beh cb then [cb] else cb # reached beh rest)"

text \<open>
  The endpoints a loop over \<open>rs\<close> calls \<open>send\<close> on: those up to the first whose \<open>send\<close>
  throws, and it.
\<close>

fun tried :: "(remote \<Rightarrow> behaviour) \<Rightarrow> remote list \<Rightarrow> remote list" where
  "tried tr [] = []"
| "tried tr (x # rest) = (if tr x = Throws then [x] else x # tried tr rest)"

text \<open>The first endpoint of \<open>rs\<close> whose \<open>send\<close> throws, if there is one.\<close>

fun failing :: "(remote \<Rightarrow> behaviour) \<Rightarrow> remote list \<Rightarrow> remote option" where
  "failing tr [] = None"
| "failing tr (x # rest) = (if tr x = Throws then Some x else failing tr rest)"

text \<open>The calls of subscribers in a trace, and the calls of \<open>send\<close>.\<close>

fun deliveries :: "event list \<Rightarrow> (callback \<times> jsval \<times> jsval) list" where
  "deliveries [] = []"
| "deliveries (Invoked cb v r # es) = (cb, v, r) # deliveries es"
| "deliveries (e # es) = deliveries es"

fun sends :: "event list \<Rightarrow> (remote \<times> string \<times> jsval) list" where
  "sends [] = []"
| "sends (Sent r c m # es) = (r, c, m) # sends es"
| "sends (e # es) = sends es"

text \<open>The effects of an operation: what the trace of \<open>w'\<close> has after the trace of \<open>w\<close>.\<close>

definition effects :: "world \<Rightarrow> world \<Rightarrow> event list" where
  "effects w w' = drop (length (trace w)) (trace w')"

text \<open>The copies that \<open>k\<close> successive calls of \<open>clone\<close> make of a value, from the supply \<open>n\<close>.\<close>

fun copies :: "nat \<Rightarrow> jsval \<Rightarrow> nat \<Rightarrow> jsval list" where
  "copies n v 0 = []"
| "copies n v (Suc k) = fst (clone_val n v) # copies (snd (clone_val n v)) v k"

text \<open>
  What it is for the values \<open>cs\<close> to be independent deep copies of a payload: each is
  deep-equal to the payload and shares no object with it or with another of the copies,
  so that an assignment to a property of an object of one copy changes neither the payload
  nor another copy.
\<close>

definition independent_copies :: "jsval \<Rightarrow> jsval list \<Rightarrow> bool" where
  "independent_copies payload cs =
     (\<forall>i<length cs.
        deep_equal (cs ! i) payload
        \<and> addrs (cs ! i) \<inter> addrs payload = {}
        \<and> (\<forall>j<length cs. j \<noteq> i \<longrightarrow> addrs (cs ! i) \<inter> addrs (cs ! j) = {})
        \<and> (\<forall>a\<in>addrs (cs ! i). \<forall>k x.
              mutate a k x payload = payload
              \<and> (\<forall>j<length cs. j \<noteq> i \<longrightarrow> mutate a k x (cs ! j) = cs ! j)))"

text \<open>Users whose callbacks all return, and users of whom one throws.\<close>

definition well_behaved :: "nat \<Rightarrow> behaviour" where
  "well_behaved u = Returns"

definition faulty :: "nat \<Rightarrow> nat \<Rightarrow> behaviour" where
  "faulty bad u = (if u = bad then Throws else Returns)"

text \<open>
  Two states inside a call of \<open>dispatch\<close>: the one in which its promise has been made, and
  the one in which a waiting call has subscribed its closure and armed its timer.
\<close>

definition promised :: "world \<Rightarrow> world" where
  "promised w = w\<lparr>promises := (promises w)(next_promise w \<mapsto> Pending),
                  next_promise := Suc (next_promise w)\<rparr>"

definition await_reply :: "nat \<Rightarrow> string \<Rightarrow> jsval \<Rightarrow> world \<Rightarrow> world" where
  "await_reply p rc delay w =
     (snd (setTimeout p delay (snd (subscribe rc (ReturnPath p) w))))
       \<lparr>closures := (closures w)(p := (rc, next_timer w))\<rparr>"

text \<open>
  The invariant of the registry: no channel of the Map has an empty Set of subscribers.
\<close>

definition registry_ok :: "world \<Rightarrow> bool" where
  "registry_ok w = (\<forall>c. channels w c \<noteq> Some [])"

section \<open>The life of a call\<close>

text \<open>
  The events of a trace that are about the call of \<open>dispatch\<close> with promise \<open>p\<close> and timer
  \<open>t\<close>: the arming, clearing and firing of its timer, the calls of its closure, the
  removal of its subscription, and the settling of its promise. The history of a call is
  what the trace says about it.
\<close>

fun about :: "nat \<Rightarrow> nat \<Rightarrow> event \<Rightarrow> bool" where
  "about p t (Invoked cb v r) = (cb = ReturnPath p)"
| "about p t (Threw cb e) = False"
| "about p t (Sent x c m) = False"
| "about p t (SendThrew x e) = False"
| "about p t (TimerSet t' p' d) = (p' = p)"
| "about p t (TimerCleared t') = (t' = t)"
| "about p t (TimerFired t') = (t' = t)"
| "about p t (Unsubscribed c cb) = (cb = ReturnPath p)"
| "about p t (ResolveCalled p' v) = (p' = p)"
| "about p t (RejectCalled p' e) = (p' = p)"

definition history :: "nat \<Rightarrow> world \<Rightarrow> event list" where
  "history p w = filter (about p (snd (closures w p))) (trace w)"

text \<open>
  A call is in one of five phases: it has not been made; it was made without waiting; it
  waits for a reply, with a deadline; a reply has come; or the deadline has passed. A
  phase of a call that was made says whether a \<open>send\<close> of its relay threw (\<open>failed\<close>), in
  which case the executor ended there and \<open>reject\<close> was called with the exception. Each
  phase has its history. A call that waits has subscribed and armed its timer (with the
  delay \<open>d\<close>), and nothing else but the \<open>reject\<close> of a \<open>send\<close> that threw; a reply (the value
  \<open>v\<close>, given to the closure with the return channel \<open>r\<close>) adds the call of the closure, the
  clearing of the timer, the removal of the subscription and the call of \<open>resolve\<close>, in
  this order; the deadline adds the firing of the timer, the removal of the subscription
  and the call of \<open>reject\<close>, in this order.
\<close>

datatype phase =
    NeverCalled
  | FireAndForget bool
  | Awaiting bool jsval
  | Answered bool jsval jsval jsval
  | TimedOut bool jsval

definition send_failure :: "nat \<Rightarrow> bool \<Rightarrow> event list" where
  "send_failure p failed = (if failed then [RejectCalled p SendError] else [])"

fun expected_history :: "nat \<Rightarrow> string \<Rightarrow> nat \<Rightarrow> phase \<Rightarrow> event list" where
  "expected_history p rc t NeverCalled = []"
| "expected_history p rc t (FireAndForget failed) =
     ResolveCalled p JUndefined # send_failure p failed"
| "expected_history p rc t (Awaiting failed d) = TimerSet t p d # send_failure p failed"
| "expected_history p rc t (Answered failed d v r) =
     TimerSet t p d # send_failure p failed
       @ [Invoked (ReturnPath p) v r, TimerCleared t,
          Unsubscribed rc (ReturnPath p), ResolveCalled p v]"
| "expected_history p rc t (TimedOut failed d) =
     TimerSet t p d # send_failure p failed
       @ [TimerFired t, Unsubscribed rc (ReturnPath p), RejectCalled p TimeOut]"

text \<open>
  What else a phase says of the state: the state of the promise, which a \<open>send\<close> that
  threw has rejected if the call waited, and which the reply or the deadline settle
  otherwise; the timer of the call, which is armed while the call waits and at no other
  time; and whether the closure is subscribed (\<open>live\<close>), which it is while the call waits
  and at no other time.
\<close>

fun expected_promise :: "phase \<Rightarrow> promise_state option" where
  "expected_promise NeverCalled = None"
| "expected_promise (FireAndForget failed) = Some (Fulfilled JUndefined)"
| "expected_promise (Awaiting failed d) =
     Some (if failed then Rejected SendError else Pending)"
| "expected_promise (Answered failed d v r) =
     Some (if failed then Rejected SendError else Fulfilled v)"
| "expected_promise (TimedOut failed d) =
     Some (if failed then Rejected SendError else Rejected TimeOut)"

fun expected_timer :: "nat \<Rightarrow> phase \<Rightarrow> (nat \<times> jsval) option" where
  "expected_timer p (Awaiting failed d) = Some (p, d)"
| "expected_timer p ph = None"

fun live :: "phase \<Rightarrow> bool" where
  "live (Awaiting failed d) = True"
| "live ph = False"

fun waited :: "phase \<Rightarrow> bool" where
  "waited NeverCalled = False"
| "waited (FireAndForget failed) = False"
| "waited ph = True"

text \<open>
  The call \<open>p\<close> is in the phase \<open>ph\<close> in the state \<open>w\<close>: its history is that of the phase,
  its promise is in the state of the phase, its timer is armed exactly when the phase is
  live, its closure is subscribed exactly when the phase is live, and then to its return
  channel only, and no other timer belongs to it.
\<close>

definition in_phase :: "nat \<Rightarrow> world \<Rightarrow> phase \<Rightarrow> bool" where
  "in_phase p w ph =
     (history p w = expected_history p (fst (closures w p)) (snd (closures w p)) ph
      \<and> promises w p = expected_promise ph
      \<and> timers w (snd (closures w p)) = expected_timer p ph
      \<and> (\<forall>c. (ReturnPath p \<in> subscribers_of w c) = (live ph \<and> c = fst (closures w p)))
      \<and> (\<forall>t. (map_option fst (timers w t) = Some p) = (live ph \<and> t = snd (closures w p)))
      \<and> (p < next_promise w) = (ph \<noteq> NeverCalled)
      \<and> (0 < snd (closures w p)) = waited ph)"

text \<open>
  The phases a call can be in after it was in a given phase: a call that waits goes on
  waiting, or is answered, or times out, with the same deadline; a call that was answered
  or timed out stays as it is. Whether a \<open>send\<close> of the call threw is settled when the call
  returns, and does not change.
\<close>

fun follows :: "phase \<Rightarrow> phase \<Rightarrow> bool" where
  "follows NeverCalled ph' = True"
| "follows (FireAndForget failed) ph' = (ph' = FireAndForget failed)"
| "follows (Awaiting failed d) ph' =
     (case ph' of
        Awaiting failed' d' \<Rightarrow> failed' = failed \<and> d' = d
      | Answered failed' d' v r \<Rightarrow> failed' = failed \<and> d' = d
      | TimedOut failed' d' \<Rightarrow> failed' = failed \<and> d' = d
      | _ \<Rightarrow> False)"
| "follows (Answered failed d v r) ph' = (ph' = Answered failed d v r)"
| "follows (TimedOut failed d) ph' = (ph' = TimedOut failed d)"

text \<open>
  The invariant of a run: every call is in a phase; a Set holds no subscriber twice; the
  timers that were cleared or fired had ids that were given out; so have the timers of the
  closures, and no two calls share a timer.
\<close>

definition orderly :: "world \<Rightarrow> bool" where
  "orderly w =
     ((\<forall>p. \<exists>ph. in_phase p w ph)
      \<and> (\<forall>c. distinct (case channels w c of None \<Rightarrow> [] | Some s \<Rightarrow> s))
      \<and> (\<forall>t. (TimerCleared t \<in> set (trace w) \<or> TimerFired t \<in> set (trace w))
               \<longrightarrow> 0 < t \<and> t < next_timer w)
      \<and> (\<forall>p. snd (closures w p) < next_timer w)
      \<and> (\<forall>p q. snd (closures w p) = snd (closures w q) \<longrightarrow> p = q \<or> snd (closures w p) = 0))"

text \<open>The events that are about no call.\<close>

fun neutral :: "event \<Rightarrow> bool" where
  "neutral (Invoked (User u) v r) = True"
| "neutral (Threw cb e) = True"
| "neutral (Sent x c m) = True"
| "neutral (SendThrew x e) = True"
| "neutral e = False"

section \<open>What each operation changes\<close>

text \<open>
  Each operation is described by the fields of the state it changes; the others it leaves
  as they are.
\<close>

lemma log_frame [simp]:
  "channels (log e w) = channels w"
  "remotes (log e w) = remotes w"
  "renderer (log e w) = renderer w"
  "listeners (log e w) = listeners w"
  "transport (log e w) = transport w"
  "timers (log e w) = timers w"
  "closures (log e w) = closures w"
  "promises (log e w) = promises w"
  "next_promise (log e w) = next_promise w"
  "next_timer (log e w) = next_timer w"
  "next_addr (log e w) = next_addr w"
  by (simp_all add: log_def)

lemma log_trace [simp]: "trace (log e w) = trace w @ [e]"
  by (simp add: log_def)

lemma clearTimeout_frame [simp]:
  "channels (clearTimeout t w) = channels w"
  "remotes (clearTimeout t w) = remotes w"
  "renderer (clearTimeout t w) = renderer w"
  "listeners (clearTimeout t w) = listeners w"
  "transport (clearTimeout t w) = transport w"
  "closures (clearTimeout t w) = closures w"
  "promises (clearTimeout t w) = promises w"
  "next_promise (clearTimeout t w) = next_promise w"
  "next_timer (clearTimeout t w) = next_timer w"
  "next_addr (clearTimeout t w) = next_addr w"
  by (simp_all add: clearTimeout_def)

lemma clearTimeout_changes [simp]:
  "timers (clearTimeout t w) = (timers w)(t := None)"
  "trace (clearTimeout t w) = trace w @ [TimerCleared t]"
  by (simp_all add: clearTimeout_def)

lemma setTimeout_frame [simp]:
  "channels (snd (setTimeout p d w)) = channels w"
  "remotes (snd (setTimeout p d w)) = remotes w"
  "renderer (snd (setTimeout p d w)) = renderer w"
  "listeners (snd (setTimeout p d w)) = listeners w"
  "transport (snd (setTimeout p d w)) = transport w"
  "closures (snd (setTimeout p d w)) = closures w"
  "promises (snd (setTimeout p d w)) = promises w"
  "next_promise (snd (setTimeout p d w)) = next_promise w"
  "next_addr (snd (setTimeout p d w)) = next_addr w"
  by (simp_all add: setTimeout_def Let_def)

lemma setTimeout_changes [simp]:
  "fst (setTimeout p d w) = next_timer w"
  "timers (snd (setTimeout p d w)) = (timers w)(next_timer w \<mapsto> (p, d))"
  "next_timer (snd (setTimeout p d w)) = Suc (next_timer w)"
  "trace (snd (setTimeout p d w)) = trace w @ [TimerSet (next_timer w) p d]"
  by (simp_all add: setTimeout_def Let_def)

lemma settle_frame [simp]:
  "channels (settle p s w) = channels w"
  "remotes (settle p s w) = remotes w"
  "renderer (settle p s w) = renderer w"
  "listeners (settle p s w) = listeners w"
  "transport (settle p s w) = transport w"
  "timers (settle p s w) = timers w"
  "closures (settle p s w) = closures w"
  "next_promise (settle p s w) = next_promise w"
  "next_timer (settle p s w) = next_timer w"
  "next_addr (settle p s w) = next_addr w"
  "trace (settle p s w) = trace w"
  by (simp_all add: settle_def split: option.splits promise_state.splits)

lemma settle_promises [simp]:
  "promises (settle p s w) =
     (if promises w p = Some Pending then (promises w)(p \<mapsto> s) else promises w)"
  by (simp add: settle_def split: option.splits promise_state.splits)

lemma resolve_frame [simp]:
  "channels (resolve p v w) = channels w"
  "remotes (resolve p v w) = remotes w"
  "renderer (resolve p v w) = renderer w"
  "listeners (resolve p v w) = listeners w"
  "transport (resolve p v w) = transport w"
  "timers (resolve p v w) = timers w"
  "closures (resolve p v w) = closures w"
  "next_promise (resolve p v w) = next_promise w"
  "next_timer (resolve p v w) = next_timer w"
  "next_addr (resolve p v w) = next_addr w"
  by (simp_all add: resolve_def)

lemma resolve_changes [simp]:
  "trace (resolve p v w) = trace w @ [ResolveCalled p v]"
  "promises (resolve p v w) =
     (if promises w p = Some Pending then (promises w)(p \<mapsto> Fulfilled v) else promises w)"
  by (simp_all add: resolve_def)

lemma reject_frame [simp]:
  "channels (reject p e w) = channels w"
  "remotes (reject p e w) = remotes w"
  "renderer (reject p e w) = renderer w"
  "listeners (reject p e w) = listeners w"
  "transport (reject p e w) = transport w"
  "timers (reject p e w) = timers w"
  "closures (reject p e w) = closures w"
  "next_promise (reject p e w) = next_promise w"
  "next_timer (reject p e w) = next_timer w"
  "next_addr (reject p e w) = next_addr w"
  by (simp_all add: reject_def)

lemma reject_changes [simp]:
  "trace (reject p e w) = trace w @ [RejectCalled p e]"
  "promises (reject p e w) =
     (if promises w p = Some Pending then (promises w)(p \<mapsto> Rejected e) else promises w)"
  by (simp_all add: reject_def)

lemma unsubscribe_frame [simp]:
  "remotes (unsubscribe c cb w) = remotes w"
  "renderer (unsubscribe c cb w) = renderer w"
  "listeners (unsubscribe c cb w) = listeners w"
  "transport (unsubscribe c cb w) = transport w"
  "timers (unsubscribe c cb w) = timers w"
  "closures (unsubscribe c cb w) = closures w"
  "promises (unsubscribe c cb w) = promises w"
  "next_promise (unsubscribe c cb w) = next_promise w"
  "next_timer (unsubscribe c cb w) = next_timer w"
  "next_addr (unsubscribe c cb w) = next_addr w"
  "trace (unsubscribe c cb w) = trace w"
  by (simp_all add: unsubscribe_def Let_def split: option.splits)

lemma subscribe_frame [simp]:
  "remotes (snd (subscribe c cb w)) = remotes w"
  "renderer (snd (subscribe c cb w)) = renderer w"
  "listeners (snd (subscribe c cb w)) = listeners w"
  "transport (snd (subscribe c cb w)) = transport w"
  "timers (snd (subscribe c cb w)) = timers w"
  "closures (snd (subscribe c cb w)) = closures w"
  "promises (snd (subscribe c cb w)) = promises w"
  "next_promise (snd (subscribe c cb w)) = next_promise w"
  "next_timer (snd (subscribe c cb w)) = next_timer w"
  "next_addr (snd (subscribe c cb w)) = next_addr w"
  "trace (snd (subscribe c cb w)) = trace w"
  by (simp_all add: subscribe_def Let_def)

lemma subscription_unsubscribe_frame [simp]:
  "remotes (subscription_unsubscribe s w) = remotes w"
  "renderer (subscription_unsubscribe s w) = renderer w"
  "listeners (subscription_unsubscribe s w) = listeners w"
  "transport (subscription_unsubscribe s w) = transport w"
  "timers (subscription_unsubscribe s w) = timers w"
  "closures (subscription_unsubscribe s w) = closures w"
  "promises (subscription_unsubscribe s w) = promises w"
  "next_promise (subscription_unsubscribe s w) = next_promise w"
  "next_timer (subscription_unsubscribe s w) = next_timer w"
  "next_addr (subscription_unsubscribe s w) = next_addr w"
  by (simp_all add: subscription_unsubscribe_def)

lemma subscription_unsubscribe_changes [simp]:
  "channels (subscription_unsubscribe s w) = channels (unsubscribe (fst s) (snd s) w)"
  "trace (subscription_unsubscribe s w) = trace w @ [Unsubscribed (fst s) (snd s)]"
  by (simp_all add: subscription_unsubscribe_def)

lemma subscribe_channels:
  "channels (snd (subscribe c cb w)) =
     (channels w)(c \<mapsto> set_add cb (case channels w c of None \<Rightarrow> [] | Some s \<Rightarrow> s))"
  "fst (subscribe c cb w) = (c, cb)"
  by (auto simp: subscribe_def Let_def split: option.splits)

lemma unsubscribe_channels:
  "channels (unsubscribe c cb w) =
     (case channels w c of
        None \<Rightarrow> channels w
      | Some s \<Rightarrow> if set_delete cb s = [] then (channels w)(c := None)
                  else (channels w)(c \<mapsto> set_delete cb s))"
  by (simp add: unsubscribe_def Let_def split: option.splits)

lemma return_path_frame [simp]:
  "remotes (return_path p v w) = remotes w"
  "renderer (return_path p v w) = renderer w"
  "listeners (return_path p v w) = listeners w"
  "transport (return_path p v w) = transport w"
  "closures (return_path p v w) = closures w"
  "next_promise (return_path p v w) = next_promise w"
  "next_timer (return_path p v w) = next_timer w"
  "next_addr (return_path p v w) = next_addr w"
  by (simp_all add: return_path_def Let_def split_beta)

lemma return_path_changes [simp]:
  "channels (return_path p v w) = channels (unsubscribe (fst (closures w p)) (ReturnPath p) w)"
  "timers (return_path p v w) = (timers w)(snd (closures w p) := None)"
  "trace (return_path p v w) =
     trace w @ [TimerCleared (snd (closures w p)),
                Unsubscribed (fst (closures w p)) (ReturnPath p), ResolveCalled p v]"
  "promises (return_path p v w) =
     (if promises w p = Some Pending then (promises w)(p \<mapsto> Fulfilled v) else promises w)"
  by (simp_all add: return_path_def Let_def split_beta unsubscribe_channels split: option.splits)

lemma on_timeout_frame [simp]:
  "remotes (on_timeout p w) = remotes w"
  "renderer (on_timeout p w) = renderer w"
  "listeners (on_timeout p w) = listeners w"
  "transport (on_timeout p w) = transport w"
  "timers (on_timeout p w) = timers w"
  "closures (on_timeout p w) = closures w"
  "next_promise (on_timeout p w) = next_promise w"
  "next_timer (on_timeout p w) = next_timer w"
  "next_addr (on_timeout p w) = next_addr w"
  by (simp_all add: on_timeout_def Let_def split_beta)

lemma on_timeout_changes [simp]:
  "channels (on_timeout p w) = channels (unsubscribe (fst (closures w p)) (ReturnPath p) w)"
  "trace (on_timeout p w) =
     trace w @ [Unsubscribed (fst (closures w p)) (ReturnPath p), RejectCalled p TimeOut]"
  "promises (on_timeout p w) =
     (if promises w p = Some Pending then (promises w)(p \<mapsto> Rejected TimeOut) else promises w)"
  by (simp_all add: on_timeout_def Let_def split_beta)

section \<open>The envelope check\<close>

lemma constructed_iff: "constructed v \<longleftrightarrow> (\<exists>a c p r. v = MessageEnvelope a c p r)"
  by (induction v rule: constructed.induct) (auto simp: MessageEnvelope_def)

lemma isEnvelope_returns: "\<exists>b. isEnvelope v = Inr b"
  by (cases v) (auto simp: isEnvelope_def)

lemma strict_eq_marker: "strict_eq t (JStr s) \<longleftrightarrow> t = JStr s"
  by (cases t) (simp_all add: strict_eq_def)

lemma isEnvelope_iff:
  "isEnvelope v = Inr True \<longleftrightarrow> (\<exists>a ps. v = JObj a ps \<and> map_of ps ''type'' = Some (JStr TYPE_marker))"
proof (cases v)
  case (JObj a ps)
  show ?thesis
  proof (cases "map_of ps ''type''")
    case None
    with JObj show ?thesis by (simp add: isEnvelope_def)
  next
    case (Some t)
    with JObj show ?thesis
      by (auto simp: isEnvelope_def strict_eq_marker TYPE_marker_def)
  qed
qed (simp_all add: isEnvelope_def)

text \<open>
  C7, as amended. \<open>isEnvelope\<close> returns false for \<open>null\<close>, \<open>undefined\<close>, \<open>42\<close>, \<open>{}\<close> and
  \<open>{type: "something-else"}\<close>, and true for every value the constructor produces; it
  throws for no input; and it returns true exactly for the objects whose \<open>type\<close> property
  is the marker, produced by the constructor or not.
\<close>

theorem isEnvelope_duck_typing:
  "isEnvelope JNull = Inr False
   \<and> isEnvelope JUndefined = Inr False
   \<and> isEnvelope (JNum 42) = Inr False
   \<and> isEnvelope (JObj a []) = Inr False
   \<and> isEnvelope (JObj a [(''type'', JStr ''something-else'')]) = Inr False
   \<and> isEnvelope (MessageEnvelope b c p r) = Inr True
   \<and> (\<exists>res. isEnvelope v = Inr res)
   \<and> (isEnvelope v = Inr True
        \<longleftrightarrow> (\<exists>a ps. v = JObj a ps \<and> map_of ps ''type'' = Some (JStr TYPE_marker)))"
proof -
  have "isEnvelope (MessageEnvelope b c p r) = Inr True"
    unfolding isEnvelope_iff by (simp add: MessageEnvelope_def)
  moreover have "isEnvelope (JObj a [(''type'', JStr ''something-else'')]) = Inr False"
    by (simp add: isEnvelope_def strict_eq_def TYPE_marker_def)
  moreover have "isEnvelope (JObj a []) = Inr False"
    by (simp add: isEnvelope_def)
  moreover have "isEnvelope JNull = Inr False" "isEnvelope JUndefined = Inr False"
    "isEnvelope (JNum 42) = Inr False"
    by (simp_all add: isEnvelope_def)
  ultimately show ?thesis
    using isEnvelope_returns [of v] isEnvelope_iff [of v] by blast
qed

text \<open>
  C7, as stated, fails: the object \<open>{type: "electron-bus--message-envelope"}\<close> was not
  produced by the constructor (it has one property, not four), and \<open>isEnvelope\<close> returns
  true for it.
\<close>

theorem isEnvelope_true_for_foreign_object:
  "isEnvelope (JObj 0 [(''type'', JStr ''electron-bus--message-envelope'')]) = Inr True
   \<and> \<not> constructed (JObj 0 [(''type'', JStr ''electron-bus--message-envelope'')])"
  by (simp add: isEnvelope_def strict_eq_def TYPE_marker_def)

section \<open>The deep copy is deep, equal and new\<close>

lemma clone_val_mono:
  "n \<le> snd (clone_val n v)"
  "n \<le> snd (clone_props n ps)"
proof (induction n v and n ps rule: clone_val_clone_props.induct)
  case (1 n a ps)
  then show ?case by (simp add: split_beta)
next
  case (9 n k v ps)
  obtain v' n1 where c: "clone_val n v = (v', n1)" by force
  from 9(1) c have "n \<le> n1" by simp
  moreover from 9(2) [OF refl c [symmetric]] have "n1 \<le> snd (clone_props n1 ps)" .
  ultimately show ?case using c by (simp add: split_beta)
qed simp_all

lemma clone_val_addrs:
  "addrs (fst (clone_val n v)) \<subseteq> {n ..< snd (clone_val n v)}"
  "addrs_props (fst (clone_props n ps)) \<subseteq> {n ..< snd (clone_props n ps)}"
proof (induction n v and n ps rule: clone_val_clone_props.induct)
  case (1 n a ps)
  have "Suc n \<le> snd (clone_props (Suc n) ps)" by (rule clone_val_mono)
  with 1 show ?case by (auto simp: split_beta)
next
  case (9 n k v ps)
  obtain v' n1 where c: "clone_val n v = (v', n1)" by force
  obtain ps' n2 where d: "clone_props n1 ps = (ps', n2)" by force
  have a: "n \<le> n1" using clone_val_mono(1) [of n v] c by simp
  have b: "n1 \<le> n2" using clone_val_mono(2) [of n1 ps] d by simp
  from 9(1) c have "addrs v' \<subseteq> {n ..< n1}" by simp
  moreover from 9(2) [OF refl c [symmetric]] d have "addrs_props ps' \<subseteq> {n1 ..< n2}" by simp
  ultimately have "addrs v' \<union> addrs_props ps' \<subseteq> {n ..< n2}" using a b by auto
  then show ?case using c d by simp
qed simp_all

lemma clone_val_erase:
  "erase (fst (clone_val n v)) = erase v"
  "erase_props (fst (clone_props n ps)) = erase_props ps"
proof (induction n v and n ps rule: clone_val_clone_props.induct)
  case (1 n a ps)
  then show ?case by (simp add: split_beta)
next
  case (9 n k v ps)
  obtain v' n1 where c: "clone_val n v = (v', n1)" by force
  from 9(2) [OF refl c [symmetric]] 9(1) c show ?case by (simp add: split_beta)
qed simp_all

lemma mutate_elsewhere:
  "a \<notin> addrs v \<Longrightarrow> mutate a k x v = v"
  "a \<notin> addrs_props ps \<Longrightarrow> mutate_props a k x ps = ps"
  by (induction a k x v and a k x ps rule: mutate_mutate_props.induct) auto

section \<open>Delivery and relay\<close>

lemma clone_frame [simp]:
  "channels (snd (clone v w)) = channels w"
  "remotes (snd (clone v w)) = remotes w"
  "renderer (snd (clone v w)) = renderer w"
  "listeners (snd (clone v w)) = listeners w"
  "transport (snd (clone v w)) = transport w"
  "timers (snd (clone v w)) = timers w"
  "closures (snd (clone v w)) = closures w"
  "promises (snd (clone v w)) = promises w"
  "next_promise (snd (clone v w)) = next_promise w"
  "next_timer (snd (clone v w)) = next_timer w"
  "trace (snd (clone v w)) = trace w"
  by (simp_all add: clone_def split_beta)

lemma clone_changes [simp]:
  "fst (clone v w) = fst (clone_val (next_addr w) v)"
  "next_addr (snd (clone v w)) = snd (clone_val (next_addr w) v)"
  by (simp_all add: clone_def split_beta)

lemma allocate_is_clone: "allocate v w = clone v w"
  by (simp add: allocate_def clone_def)

lemma invoke_frame [simp]:
  "remotes (snd (invoke beh cb a r w)) = remotes w"
  "renderer (snd (invoke beh cb a r w)) = renderer w"
  "listeners (snd (invoke beh cb a r w)) = listeners w"
  "transport (snd (invoke beh cb a r w)) = transport w"
  "closures (snd (invoke beh cb a r w)) = closures w"
  "next_promise (snd (invoke beh cb a r w)) = next_promise w"
  "next_timer (snd (invoke beh cb a r w)) = next_timer w"
  "next_addr (snd (invoke beh cb a r w)) = next_addr w"
  by (cases cb; simp split: behaviour.splits)+

lemma invoke_exn: "fst (invoke beh cb a r w) = (if throws beh cb then Some CallbackError else None)"
  by (cases cb) (simp_all split: behaviour.splits)

lemma invoke_effects:
  "\<exists>es. trace (snd (invoke beh cb a r w)) = trace w @ es \<and> deliveries es = [] \<and> sends es = []"
  by (cases cb) (simp_all split: behaviour.splits)

lemma deliver_Cons:
  "deliver beh (cb # cbs) v r w =
     (if throws beh cb
      then (Some CallbackError,
            snd (invoke beh cb (fst (clone v w)) r (log (Invoked cb (fst (clone v w)) r) (snd (clone v w)))))
      else deliver beh cbs v r
            (snd (invoke beh cb (fst (clone v w)) r (log (Invoked cb (fst (clone v w)) r) (snd (clone v w))))))"
proof -
  obtain x w2 where i: "invoke beh cb (fst (clone v w)) r (log (Invoked cb (fst (clone v w)) r) (snd (clone v w))) = (x, w2)"
    by force
  with invoke_exn [of beh cb "fst (clone v w)" r "log (Invoked cb (fst (clone v w)) r) (snd (clone v w))"]
  show ?thesis by (simp add: split_beta del: clone_changes)
qed

declare deliver.simps(2) [simp del]

lemma deliver_frame [simp]:
  "remotes (snd (deliver beh cbs v r w)) = remotes w"
  "renderer (snd (deliver beh cbs v r w)) = renderer w"
  "listeners (snd (deliver beh cbs v r w)) = listeners w"
  "transport (snd (deliver beh cbs v r w)) = transport w"
  "closures (snd (deliver beh cbs v r w)) = closures w"
  "next_promise (snd (deliver beh cbs v r w)) = next_promise w"
  "next_timer (snd (deliver beh cbs v r w)) = next_timer w"
  by (induction cbs arbitrary: w; simp add: deliver_Cons)+

lemma deliveries_append [simp]: "deliveries (xs @ ys) = deliveries xs @ deliveries ys"
  by (induction xs rule: deliveries.induct) simp_all

lemma sends_append [simp]: "sends (xs @ ys) = sends xs @ sends ys"
  by (induction xs rule: sends.induct) simp_all

lemma deliver_effects:
  "\<exists>es. trace (snd (deliver beh cbs v r w)) = trace w @ es
        \<and> deliveries es = map2 (\<lambda>cb c. (cb, c, r)) (reached beh cbs)
                             (copies (next_addr w) v (length (reached beh cbs)))
        \<and> sends es = []"
proof (induction cbs arbitrary: w)
  case Nil
  show ?case by simp
next
  case (Cons cb cbs)
  let ?c = "fst (clone_val (next_addr w) v)"
  let ?w1 = "log (Invoked cb ?c r) (snd (clone v w))"
  let ?w2 = "snd (invoke beh cb ?c r ?w1)"
  obtain es1 where es1: "trace ?w2 = trace ?w1 @ es1" "deliveries es1 = []" "sends es1 = []"
    using invoke_effects by blast
  show ?case
  proof (cases "throws beh cb")
    case True
    then have "snd (deliver beh (cb # cbs) v r w) = ?w2"
      by (simp add: deliver_Cons)
    with es1 True show ?thesis by simp
  next
    case False
    then have d: "snd (deliver beh (cb # cbs) v r w) = snd (deliver beh cbs v r ?w2)"
      by (simp add: deliver_Cons)
    obtain es2 where es2: "trace (snd (deliver beh cbs v r ?w2)) = trace ?w2 @ es2"
      "deliveries es2 = map2 (\<lambda>cb c. (cb, c, r)) (reached beh cbs)
                             (copies (next_addr ?w2) v (length (reached beh cbs)))"
      "sends es2 = []"
      using Cons.IH by blast
    have n: "next_addr ?w2 = snd (clone_val (next_addr w) v)" by simp
    show ?thesis
      by (rule exI [of _ "Invoked cb ?c r # es1 @ es2"]) (simp add: d es1 es2 False n)
  qed
qed


lemma copies_length [simp]: "length (copies n v k) = k"
  by (induction k arbitrary: n) simp_all

lemma copies_above:
  "c \<in> set (copies n v k) \<Longrightarrow> deep_equal c v \<and> (\<forall>a\<in>addrs c. n \<le> a)"
proof (induction k arbitrary: n)
  case 0
  then show ?case by simp
next
  case (Suc k)
  from Suc.prems consider "c = fst (clone_val n v)" | "c \<in> set (copies (snd (clone_val n v)) v k)"
    by auto
  then show ?case
  proof cases
    case 1
    then show ?thesis
      using clone_val_addrs(1) [of n v] by (auto simp: deep_equal_def clone_val_erase)
  next
    case 2
    from Suc.IH [OF 2] clone_val_mono(1) [of n v] show ?thesis
      by (auto intro: le_trans)
  qed
qed

lemma copies_apart:
  "sorted_wrt (\<lambda>c d. addrs c \<inter> addrs d = {}) (copies n v k)"
proof (induction k arbitrary: n)
  case 0
  show ?case by simp
next
  case (Suc k)
  have "addrs (fst (clone_val n v)) \<inter> addrs d = {}"
    if "d \<in> set (copies (snd (clone_val n v)) v k)" for d
    using copies_above [OF that] clone_val_addrs(1) [of n v] by fastforce
  with Suc.IH show ?case by simp
qed

lemma copies_distinct_addrs:
  assumes "i < k" "j < k" "i \<noteq> j"
  shows "addrs (copies n v k ! i) \<inter> addrs (copies n v k ! j) = {}"
proof -
  have *: "addrs (copies n v k ! a) \<inter> addrs (copies n v k ! b) = {}" if "a < b" "b < k" for a b
    using copies_apart [of n v k] that by (simp add: sorted_wrt_iff_nth_less)
  from assms consider "i < j" | "j < i" by linarith
  then show ?thesis
    using * [of i j] * [of j i] assms by cases auto
qed

lemma reached_all: "\<forall>cb\<in>set cbs. \<not> throws beh cb \<Longrightarrow> reached beh cbs = cbs"
  by (induction cbs) simp_all

lemma reached_until:
  "\<forall>x\<in>set pre. \<not> throws beh x \<Longrightarrow> throws beh cb \<Longrightarrow> reached beh (pre @ cb # post) = pre @ [cb]"
  by (induction pre) simp_all

lemma effects_append [simp]: "trace w' = trace w @ es \<Longrightarrow> effects w w' = es"
  by (simp add: effects_def)

lemma localDispatch_effects:
  assumes "channels w c = Some subs"
  shows "deliveries (effects w (localDispatch beh c v r w)) =
           map2 (\<lambda>cb copy. (cb, copy, r)) (reached beh subs)
                (copies (next_addr w) v (length (reached beh subs)))"
    and "sends (effects w (localDispatch beh c v r w)) = []"
proof -
  obtain es where "trace (snd (deliver beh subs v r w)) = trace w @ es"
    "deliveries es = map2 (\<lambda>cb c. (cb, c, r)) (reached beh subs)
                             (copies (next_addr w) v (length (reached beh subs)))" "sends es = []"
    using deliver_effects by blast
  with assms show "deliveries (effects w (localDispatch beh c v r w)) =
           map2 (\<lambda>cb copy. (cb, copy, r)) (reached beh subs)
                (copies (next_addr w) v (length (reached beh subs)))"
    and "sends (effects w (localDispatch beh c v r w)) = []"
    by (simp_all add: localDispatch_def)
qed

lemma copies_independent:
  assumes "\<forall>a\<in>addrs payload. a < n"
  shows "independent_copies payload (copies n payload k)"
proof -
  let ?cs = "copies n payload k"
  have eq: "deep_equal (?cs ! i) payload" and fresh: "addrs (?cs ! i) \<inter> addrs payload = {}"
    if "i < k" for i
  proof -
    from that have "?cs ! i \<in> set ?cs" by simp
    from copies_above [OF this] show "deep_equal (?cs ! i) payload"
      and "addrs (?cs ! i) \<inter> addrs payload = {}"
      using assms by fastforce+
  qed
  have apart: "addrs (?cs ! i) \<inter> addrs (?cs ! j) = {}" if "i < k" "j < k" "j \<noteq> i" for i j
    using copies_distinct_addrs [of i k j] that by simp
  have mut: "mutate a f x payload = payload \<and> (\<forall>j<k. j \<noteq> i \<longrightarrow> mutate a f x (?cs ! j) = ?cs ! j)"
    if "i < k" "a \<in> addrs (?cs ! i)" for i a f x
  proof -
    from fresh [OF that(1)] that(2) have "a \<notin> addrs payload" by auto
    moreover have "a \<notin> addrs (?cs ! j)" if "j < k" "j \<noteq> i" for j
      using apart [OF \<open>i < k\<close> that] \<open>a \<in> addrs (?cs ! i)\<close> by auto
    ultimately show ?thesis by (simp add: mutate_elsewhere)
  qed
  show ?thesis
    unfolding independent_copies_def using eq fresh apart mut by simp
qed

text \<open>
  C3, as amended. When the channel has subscribers and the payload is a value of this
  process (its objects are allocated), \<open>localDispatch\<close> calls, in subscription order, the
  subscribers up to and including the first whose callback throws, all of them when none
  throws. Each call gets a copy of its own and the \<open>returnChannel\<close> as it was given; the
  copies are independent deep copies of the payload.
\<close>

theorem localDispatch_delivers_copies:
  assumes "channels w c = Some subs"
    and "\<forall>a\<in>addrs payload. a < next_addr w"
  shows "\<exists>cs. length cs = length (reached beh subs)
     \<and> deliveries (effects w (localDispatch beh c payload ret w)) =
         map2 (\<lambda>cb copy. (cb, copy, ret)) (reached beh subs) cs
     \<and> independent_copies payload cs
     \<and> ((\<forall>cb\<in>set subs. \<not> throws beh cb) \<longrightarrow> reached beh subs = subs)"
  using localDispatch_effects(1) [OF assms(1)] copies_independent [OF assms(2)]
    reached_all [of subs beh]
  by (intro exI [of _ "copies (next_addr w) payload (length (reached beh subs))"]) simp

theorem localDispatch_delivers_copies_witness:
  "channels ((empty_world False)\<lparr>channels := [''news'' \<mapsto> [User 1, User 2]], next_addr := 1\<rparr>) ''news''
     = Some [User 1, User 2]
   \<and> addrs (JObj 0 [(''x'', JNum 1)]) = {0}
   \<and> next_addr ((empty_world False)\<lparr>channels := [''news'' \<mapsto> [User 1, User 2]], next_addr := 1\<rparr>) = 1
   \<and> (\<exists>cs. length cs = 2
        \<and> deliveries (effects ((empty_world False)\<lparr>channels := [''news'' \<mapsto> [User 1, User 2]], next_addr := 1\<rparr>)
            (localDispatch well_behaved ''news'' (JObj 0 [(''x'', JNum 1)]) (JStr ''back'')
               ((empty_world False)\<lparr>channels := [''news'' \<mapsto> [User 1, User 2]], next_addr := 1\<rparr>)))
           = map2 (\<lambda>cb copy. (cb, copy, JStr ''back'')) [User 1, User 2] cs
        \<and> independent_copies (JObj 0 [(''x'', JNum 1)]) cs)"
proof -
  let ?w = "(empty_world False)\<lparr>channels := [''news'' \<mapsto> [User 1, User 2]], next_addr := 1\<rparr>"
  let ?p = "JObj 0 [(''x'', JNum 1)]"
  have h1: "channels ?w ''news'' = Some [User 1, User 2]" by simp
  have h2: "\<forall>a\<in>addrs ?p. a < next_addr ?w" by simp
  have r: "reached well_behaved [User 1, User 2] = [User 1, User 2]"
    by (simp add: well_behaved_def)
  obtain cs where cs: "length cs = length (reached well_behaved [User 1, User 2])"
    "deliveries (effects ?w (localDispatch well_behaved ''news'' ?p (JStr ''back'') ?w))
       = map2 (\<lambda>cb copy. (cb, copy, JStr ''back'')) (reached well_behaved [User 1, User 2]) cs"
    "independent_copies ?p cs"
    using localDispatch_delivers_copies [OF h1 h2, of well_behaved "JStr ''back''"] by blast
  have "\<exists>cs. length cs = 2
        \<and> deliveries (effects ?w (localDispatch well_behaved ''news'' ?p (JStr ''back'') ?w))
           = map2 (\<lambda>cb copy. (cb, copy, JStr ''back'')) [User 1, User 2] cs
        \<and> independent_copies ?p cs"
    using cs unfolding r by (intro exI [of _ cs]) simp
  then show ?thesis by simp
qed

text \<open>
  C3, as stated, fails: of two subscribers of a channel, the second is not called when
  the callback of the first throws.
\<close>

theorem localDispatch_skips_subscriber_after_throw:
  "map fst (deliveries (effects ((empty_world False)\<lparr>channels := [''news'' \<mapsto> [User 1, User 2]], next_addr := 1\<rparr>)
        (localDispatch (faulty 1) ''news'' (JObj 0 [(''x'', JNum 1)]) JUndefined
           ((empty_world False)\<lparr>channels := [''news'' \<mapsto> [User 1, User 2]], next_addr := 1\<rparr>))))
      = [User 1]"
proof -
  let ?w = "(empty_world False)\<lparr>channels := [''news'' \<mapsto> [User 1, User 2]], next_addr := 1\<rparr>"
  have h1: "channels ?w ''news'' = Some [User 1, User 2]" by simp
  show ?thesis
    using localDispatch_effects(1) [OF h1, of "faulty 1" "JObj 0 [(''x'', JNum 1)]" JUndefined]
    by (simp add: faulty_def)
qed

section \<open>The effects of a dispatch\<close>

lemma relay_frame [simp]:
  "channels (snd (relay rs c v r w)) = channels w"
  "remotes (snd (relay rs c v r w)) = remotes w"
  "renderer (snd (relay rs c v r w)) = renderer w"
  "listeners (snd (relay rs c v r w)) = listeners w"
  "transport (snd (relay rs c v r w)) = transport w"
  "timers (snd (relay rs c v r w)) = timers w"
  "closures (snd (relay rs c v r w)) = closures w"
  "promises (snd (relay rs c v r w)) = promises w"
  "next_promise (snd (relay rs c v r w)) = next_promise w"
  "next_timer (snd (relay rs c v r w)) = next_timer w"
  by (induction rs arbitrary: w; simp add: Let_def split: behaviour.splits)+

lemma relay_exn:
  "fst (relay rs c v r w) = map_option (\<lambda>x. SendError) (failing (transport w) rs)"
  by (induction rs arbitrary: w) (simp_all add: Let_def split: behaviour.splits)

lemma relay_trace:
  "trace (snd (relay rs c v r w)) =
     trace w @ map (\<lambda>(i, x). Sent x CHANNEL (MessageEnvelope (next_addr w + i) (JStr c) v r))
                   (enumerate 0 (tried (transport w) rs))
       @ (case failing (transport w) rs of None \<Rightarrow> [] | Some x \<Rightarrow> [SendThrew x SendError])"
proof (induction rs arbitrary: w)
  case Nil
  show ?case by simp
next
  case (Cons x rs)
  show ?case
    by (cases "transport w x")
       (simp_all add: Let_def Cons.IH enumerate_Suc_eq [of 0] split_beta comp_def)
qed

lemma caught_frame [simp]:
  "channels (caught p x) = channels (snd x)"
  "remotes (caught p x) = remotes (snd x)"
  "renderer (caught p x) = renderer (snd x)"
  "listeners (caught p x) = listeners (snd x)"
  "transport (caught p x) = transport (snd x)"
  "timers (caught p x) = timers (snd x)"
  "closures (caught p x) = closures (snd x)"
  "next_promise (caught p x) = next_promise (snd x)"
  "next_timer (caught p x) = next_timer (snd x)"
  "next_addr (caught p x) = next_addr (snd x)"
  by (simp_all add: caught_def split: option.splits)

lemma caught_relay:
  "caught p (relay rs c v r w) =
     (case failing (transport w) rs of
        None \<Rightarrow> snd (relay rs c v r w)
      | Some x \<Rightarrow> reject p SendError (snd (relay rs c v r w)))"
  by (simp add: caught_def relay_exn split: option.splits)

lemma caught_relay_trace:
  "trace (caught p (relay rs c v r w)) =
     trace w @ map (\<lambda>(i, x). Sent x CHANNEL (MessageEnvelope (next_addr w + i) (JStr c) v r))
                   (enumerate 0 (tried (transport w) rs))
       @ (case failing (transport w) rs of
            None \<Rightarrow> []
          | Some x \<Rightarrow> [SendThrew x SendError, RejectCalled p SendError])"
  by (simp add: caught_relay relay_trace split: option.splits)

lemma tried_all: "failing tr rs = None \<Longrightarrow> tried tr rs = rs"
  by (induction rs) (simp_all split: if_splits)

lemma tried_subset: "set (tried tr rs) \<subseteq> set rs"
  by (induction rs) auto

lemma sends_of_Sent:
  "sends (map (\<lambda>(i, x). Sent x c (f i)) xs) = map (\<lambda>(i, x). (x, c, f i)) xs"
  by (induction xs) (simp_all add: split_beta)

lemma localDispatch_frame [simp]:
  "remotes (localDispatch beh c v r w) = remotes w"
  "renderer (localDispatch beh c v r w) = renderer w"
  "listeners (localDispatch beh c v r w) = listeners w"
  "transport (localDispatch beh c v r w) = transport w"
  "closures (localDispatch beh c v r w) = closures w"
  "next_promise (localDispatch beh c v r w) = next_promise w"
  "next_timer (localDispatch beh c v r w) = next_timer w"
  by (simp_all add: localDispatch_def split: option.splits)

lemma localDispatch_no_channel [simp]:
  "channels w c = None \<Longrightarrow> localDispatch beh c v r w = w"
  by (simp add: localDispatch_def)

lemma localDispatch_trace:
  "\<exists>es. trace (localDispatch beh c v r w) = trace w @ es \<and> sends es = []"
proof (cases "channels w c")
  case None
  then show ?thesis by simp
next
  case (Some subs)
  with deliver_effects [of beh subs v r w] show ?thesis
    by (auto simp: localDispatch_def)
qed

lemma dispatch_not_waiting:
  assumes "\<not> truthy (option_field opts ''waiting'')"
  shows "dispatch beh c v opts rnd w =
           (next_promise w,
            caught (next_promise w)
              (relay (remotes w) c v JUndefined
                 (localDispatch beh c v JUndefined (resolve (next_promise w) JUndefined (promised w)))))"
  using assms by (simp add: dispatch_def Let_def promised_def)

lemma dispatch_waiting:
  assumes "truthy (option_field opts ''waiting'')"
  shows "dispatch beh c v opts rnd w =
           (next_promise w,
            caught (next_promise w)
              (relay (remotes w) c v (JStr (c @ ''-'' @ base36 rnd))
                 (localDispatch beh c v (JStr (c @ ''-'' @ base36 rnd))
                    (await_reply (next_promise w) (c @ ''-'' @ base36 rnd)
                       (deadline (option_field opts ''timeout'')) (promised w)))))"
  using assms
  by (simp add: dispatch_def Let_def promised_def await_reply_def split_beta subscribe_def setTimeout_def log_def)

lemma promised_frame [simp]:
  "channels (promised w) = channels w"
  "remotes (promised w) = remotes w"
  "renderer (promised w) = renderer w"
  "listeners (promised w) = listeners w"
  "transport (promised w) = transport w"
  "timers (promised w) = timers w"
  "closures (promised w) = closures w"
  "next_timer (promised w) = next_timer w"
  "next_addr (promised w) = next_addr w"
  "trace (promised w) = trace w"
  by (simp_all add: promised_def)

lemma promised_changes [simp]:
  "promises (promised w) = (promises w)(next_promise w \<mapsto> Pending)"
  "next_promise (promised w) = Suc (next_promise w)"
  by (simp_all add: promised_def)

lemma await_reply_frame [simp]:
  "remotes (await_reply p rc d w) = remotes w"
  "renderer (await_reply p rc d w) = renderer w"
  "listeners (await_reply p rc d w) = listeners w"
  "transport (await_reply p rc d w) = transport w"
  "promises (await_reply p rc d w) = promises w"
  "next_promise (await_reply p rc d w) = next_promise w"
  "next_addr (await_reply p rc d w) = next_addr w"
  by (simp_all add: await_reply_def)

lemma await_reply_changes [simp]:
  "channels (await_reply p rc d w) = channels (snd (subscribe rc (ReturnPath p) w))"
  "timers (await_reply p rc d w) = (timers w)(next_timer w \<mapsto> (p, d))"
  "closures (await_reply p rc d w) = (closures w)(p := (rc, next_timer w))"
  "next_timer (await_reply p rc d w) = Suc (next_timer w)"
  "trace (await_reply p rc d w) = trace w @ [TimerSet (next_timer w) p d]"
  by (simp_all add: await_reply_def)

lemma subscribers_of_cong: "channels w' = channels w \<Longrightarrow> subscribers_of w' = subscribers_of w"
  by (simp add: subscribers_of_def fun_eq_iff)

lemma subscribers_of_unsubscribe:
  "subscribers_of (unsubscribe c cb w) c' =
     (if c' = c then subscribers_of w c - {cb} else subscribers_of w c')"
proof (cases "channels w c")
  case None
  then show ?thesis by (simp add: subscribers_of_def unsubscribe_channels)
next
  case (Some s)
  have "set (removeAll cb s) = set s - {cb}" by simp
  then have "set s - {cb} = {}" if "removeAll cb s = []"
    using that by simp
  with Some show ?thesis
    by (simp add: subscribers_of_def unsubscribe_channels set_delete_def)
qed

lemma subscribers_of_subscribe:
  "subscribers_of (snd (subscribe c cb w)) c' =
     (if c' = c then insert cb (subscribers_of w c) else subscribers_of w c')"
  by (auto simp: subscribers_of_def subscribe_channels set_add_def split: option.splits)

lemma invoke_keeps_users:
  "User u \<in> subscribers_of (snd (invoke beh cb a r w)) c \<longleftrightarrow> User u \<in> subscribers_of w c"
proof (cases cb)
  case (User u')
  then show ?thesis by (simp split: behaviour.splits add: subscribers_of_cong [of "log e w" w for e])
next
  case (ReturnPath p)
  have "subscribers_of (return_path p a w) = subscribers_of (unsubscribe (fst (closures w p)) (ReturnPath p) w)"
    by (rule subscribers_of_cong) simp
  with ReturnPath show ?thesis by (simp add: subscribers_of_unsubscribe)
qed

lemma deliver_keeps_users:
  "User u \<in> subscribers_of (snd (deliver beh cbs v r w)) c \<longleftrightarrow> User u \<in> subscribers_of w c"
proof (induction cbs arbitrary: w)
  case Nil
  show ?case by simp
next
  case (Cons cb cbs)
  let ?w1 = "log (Invoked cb (fst (clone v w)) r) (snd (clone v w))"
  have "subscribers_of ?w1 = subscribers_of w"
    by (rule subscribers_of_cong) simp
  then show ?case
    by (simp add: deliver_Cons Cons.IH invoke_keeps_users del: clone_changes)
qed

lemma localDispatch_keeps_users:
  "User u \<in> subscribers_of (localDispatch beh c v r w) c' \<longleftrightarrow> User u \<in> subscribers_of w c'"
  by (simp add: localDispatch_def deliver_keeps_users split: option.splits)

lemma effects_trans:
  "trace w1 = trace w @ a \<Longrightarrow> trace w2 = trace w1 @ b \<Longrightarrow> effects w w2 = a @ b"
  by (simp add: effects_def)

lemma dispatch_promise [simp]: "fst (dispatch beh c v opts rnd w) = next_promise w"
  by (simp add: dispatch_def Let_def split_beta)


lemma map_fst_enumerate_map: "map (fst \<circ> (\<lambda>(i, x). (x, f i))) (enumerate n xs) = xs"
  by (induction xs arbitrary: n) simp_all

lemma dispatch_effects:
  "\<exists>es n. effects w (snd (dispatch beh c v opts rnd w)) =
      (if truthy (option_field opts ''waiting'')
       then TimerSet (next_timer w) (next_promise w) (deadline (option_field opts ''timeout''))
       else ResolveCalled (next_promise w) JUndefined)
      # es @ map (\<lambda>(i, x). Sent x CHANNEL (MessageEnvelope (n + i) (JStr c) v
                     (if truthy (option_field opts ''waiting'')
                      then JStr (c @ ''-'' @ base36 rnd) else JUndefined)))
                 (enumerate 0 (tried (transport w) (remotes w)))
        @ (case failing (transport w) (remotes w) of
             None \<Rightarrow> []
           | Some x \<Rightarrow> [SendThrew x SendError, RejectCalled (next_promise w) SendError])
     \<and> sends es = []"
proof (cases "truthy (option_field opts ''waiting'')")
  case False
  let ?w1 = "resolve (next_promise w) JUndefined (promised w)"
  let ?w2 = "localDispatch beh c v JUndefined ?w1"
  obtain es where es: "trace ?w2 = trace ?w1 @ es" "sends es = []"
    using localDispatch_trace by blast
  have "trace (snd (dispatch beh c v opts rnd w)) =
          trace w @ (ResolveCalled (next_promise w) JUndefined # es) @
            map (\<lambda>(i, x). Sent x CHANNEL (MessageEnvelope (next_addr ?w2 + i) (JStr c) v JUndefined))
                (enumerate 0 (tried (transport w) (remotes w)))
            @ (case failing (transport w) (remotes w) of
                 None \<Rightarrow> []
               | Some x \<Rightarrow> [SendThrew x SendError, RejectCalled (next_promise w) SendError])"
    using es by (simp add: dispatch_not_waiting [OF False] caught_relay_trace)
  then have "effects w (snd (dispatch beh c v opts rnd w)) = (ResolveCalled (next_promise w) JUndefined # es) @
            map (\<lambda>(i, x). Sent x CHANNEL (MessageEnvelope (next_addr ?w2 + i) (JStr c) v JUndefined))
                (enumerate 0 (tried (transport w) (remotes w)))
            @ (case failing (transport w) (remotes w) of
                 None \<Rightarrow> []
               | Some x \<Rightarrow> [SendThrew x SendError, RejectCalled (next_promise w) SendError])"
    by (rule effects_append)
  with False es(2) show ?thesis by auto
next
  case True
  let ?rc = "c @ ''-'' @ base36 rnd"
  let ?w1 = "await_reply (next_promise w) ?rc (deadline (option_field opts ''timeout'')) (promised w)"
  let ?w2 = "localDispatch beh c v (JStr ?rc) ?w1"
  obtain es where es: "trace ?w2 = trace ?w1 @ es" "sends es = []"
    using localDispatch_trace by blast
  have "trace (snd (dispatch beh c v opts rnd w)) =
          trace w @ (TimerSet (next_timer w) (next_promise w) (deadline (option_field opts ''timeout'')) # es) @
            map (\<lambda>(i, x). Sent x CHANNEL (MessageEnvelope (next_addr ?w2 + i) (JStr c) v (JStr ?rc)))
                (enumerate 0 (tried (transport w) (remotes w)))
            @ (case failing (transport w) (remotes w) of
                 None \<Rightarrow> []
               | Some x \<Rightarrow> [SendThrew x SendError, RejectCalled (next_promise w) SendError])"
    using es by (simp add: dispatch_waiting [OF True] caught_relay_trace)
  then have "effects w (snd (dispatch beh c v opts rnd w)) =
       (TimerSet (next_timer w) (next_promise w) (deadline (option_field opts ''timeout'')) # es) @
            map (\<lambda>(i, x). Sent x CHANNEL (MessageEnvelope (next_addr ?w2 + i) (JStr c) v (JStr ?rc)))
                (enumerate 0 (tried (transport w) (remotes w)))
            @ (case failing (transport w) (remotes w) of
                 None \<Rightarrow> []
               | Some x \<Rightarrow> [SendThrew x SendError, RejectCalled (next_promise w) SendError])"
    by (rule effects_append)
  with True es(2) show ?thesis by auto
qed

lemma dispatch_sends_to:
  "map fst (sends (effects w (snd (dispatch beh c v opts rnd w)))) = tried (transport w) (remotes w)"
proof -
  obtain es n where eq: "effects w (snd (dispatch beh c v opts rnd w)) =
      (if truthy (option_field opts ''waiting'')
       then TimerSet (next_timer w) (next_promise w) (deadline (option_field opts ''timeout''))
       else ResolveCalled (next_promise w) JUndefined)
      # es @ map (\<lambda>(i, x). Sent x CHANNEL (MessageEnvelope (n + i) (JStr c) v
                     (if truthy (option_field opts ''waiting'')
                      then JStr (c @ ''-'' @ base36 rnd) else JUndefined)))
                 (enumerate 0 (tried (transport w) (remotes w)))
        @ (case failing (transport w) (remotes w) of
             None \<Rightarrow> []
           | Some x \<Rightarrow> [SendThrew x SendError, RejectCalled (next_promise w) SendError])"
    and es: "sends es = []"
    using dispatch_effects [of w beh c v opts rnd] by blast
  show ?thesis
    unfolding eq using es
    by (simp add: sends_of_Sent map_fst_enumerate_map split: option.splits)
qed

lemma map_fst_map2:
  "length xs = length cs \<Longrightarrow> map (fst \<circ> (\<lambda>(x, y). (x, f y))) (zip xs cs) = xs"
  by (induction xs cs rule: list_induct2) simp_all

lemma empty_world_fields [simp]:
  "channels (empty_world r) = Map.empty"
  "remotes (empty_world r) = []"
  "renderer (empty_world r) = r"
  "listeners (empty_world r) = 0"
  "transport (empty_world r) = (\<lambda>x. Returns)"
  "timers (empty_world r) = Map.empty"
  "closures (empty_world r) = (\<lambda>p. ([], 0))"
  "promises (empty_world r) = Map.empty"
  "next_promise (empty_world r) = 0"
  "next_timer (empty_world r) = 1"
  "next_addr (empty_world r) = 0"
  "trace (empty_world r) = []"
  by (simp_all add: empty_world_def)

lemmas eval_defs = run_def subscribe_def unsubscribe_def set_add_def set_delete_def dispatch_def
  localDispatch_def deliver_Cons option_field_def allocate_def clone_def attach_def
  isBrowserWindow_def empty_world_def log_def resolve_def reject_def settle_def setTimeout_def
  caught_def
  deadline_def Let_def split_beta well_behaved_def faulty_def MessageEnvelope_def
  TYPE_marker_def CHANNEL_def

lemma constructor_window:
  "constructor False (Some (BrowserWindow n))
     = Inr ((empty_world False)\<lparr>remotes := [WebContents n], listeners := 1\<rparr>)"
  by (simp add: constructor_def attach_def isBrowserWindow_def set_add_def empty_world_def)

section \<open>A subscriber that throws\<close>

text \<open>
  C5, as amended. When the callback of a subscriber throws during \<open>localDispatch\<close>, the
  subscribers before it have been called and those after it are not called. No
  subscription of a user is removed, and the exception does not reach \<open>dispatch\<close>, which
  goes on to the relay: it calls \<open>send\<close> on the remotes in turn, up to and including the
  first whose \<open>send\<close> throws, and so on every remote when no \<open>send\<close> throws.
\<close>

theorem throwing_subscriber_ends_delivery:
  assumes "channels w c = Some (pre @ cb # post)"
    and "throws beh cb"
    and "\<forall>x\<in>set pre. \<not> throws beh x"
  shows "map fst (deliveries (effects w (localDispatch beh c payload ret w))) = pre @ [cb]
       \<and> (\<forall>c' u. (User u \<in> subscribers_of (localDispatch beh c payload ret w) c')
                 = (User u \<in> subscribers_of w c'))
       \<and> map fst (sends (effects w (snd (dispatch beh c payload opts rnd w))))
           = tried (transport w) (remotes w)
       \<and> (failing (transport w) (remotes w) = None
            \<longrightarrow> map fst (sends (effects w (snd (dispatch beh c payload opts rnd w)))) = remotes w)"
proof -
  have "reached beh (pre @ cb # post) = pre @ [cb]"
    using assms(2,3) by (simp add: reached_until)
  then have "map fst (deliveries (effects w (localDispatch beh c payload ret w))) = pre @ [cb]"
    using localDispatch_effects(1) [OF assms(1), of beh payload ret]
    by (simp add: map_fst_map2)
  then show ?thesis
    by (simp add: localDispatch_keeps_users dispatch_sends_to tried_all)
qed

theorem throwing_subscriber_ends_delivery_witness:
  "constructor False (Some (BrowserWindow 7))
     = Inr ((empty_world False)\<lparr>remotes := [WebContents 7], listeners := 1\<rparr>)
   \<and> channels (run (faulty 2) ((empty_world False)\<lparr>remotes := [WebContents 7], listeners := 1\<rparr>)
           [Attach (BrowserWindow 8), Subscribe ''news'' 1, Subscribe ''news'' 2, Subscribe ''news'' 3]) ''news''
     = Some ([User 1] @ User 2 # [User 3])
   \<and> throws (faulty 2) (User 2)
   \<and> \<not> throws (faulty 2) (User 1)
   \<and> map fst (deliveries (effects
         (run (faulty 2) ((empty_world False)\<lparr>remotes := [WebContents 7], listeners := 1\<rparr>)
           [Attach (BrowserWindow 8), Subscribe ''news'' 1, Subscribe ''news'' 2, Subscribe ''news'' 3])
         (localDispatch (faulty 2) ''news'' JNull JUndefined
            (run (faulty 2) ((empty_world False)\<lparr>remotes := [WebContents 7], listeners := 1\<rparr>)
           [Attach (BrowserWindow 8), Subscribe ''news'' 1, Subscribe ''news'' 2, Subscribe ''news'' 3]))))
      = [User 1, User 2]
   \<and> User 3 \<in> subscribers_of
         (localDispatch (faulty 2) ''news'' JNull JUndefined
            (run (faulty 2) ((empty_world False)\<lparr>remotes := [WebContents 7], listeners := 1\<rparr>)
           [Attach (BrowserWindow 8), Subscribe ''news'' 1, Subscribe ''news'' 2, Subscribe ''news'' 3]))
         ''news''
   \<and> map fst (sends (effects
         (run (faulty 2) ((empty_world False)\<lparr>remotes := [WebContents 7], listeners := 1\<rparr>)
           [Attach (BrowserWindow 8), Subscribe ''news'' 1, Subscribe ''news'' 2, Subscribe ''news'' 3])
         (snd (dispatch (faulty 2) ''news'' JNull JUndefined 0
            (run (faulty 2) ((empty_world False)\<lparr>remotes := [WebContents 7], listeners := 1\<rparr>)
           [Attach (BrowserWindow 8), Subscribe ''news'' 1, Subscribe ''news'' 2, Subscribe ''news'' 3])))))
      = [WebContents 7, WebContents 8]
   \<and> map fst (sends (effects
         (run (faulty 2) ((empty_world False)\<lparr>remotes := [WebContents 7], listeners := 1\<rparr>)
           [Attach (BrowserWindow 8), Subscribe ''news'' 1, Subscribe ''news'' 2, Subscribe ''news'' 3,
            TransportChanges (WebContents 7) Throws])
         (snd (dispatch (faulty 2) ''news'' JNull JUndefined 0
            (run (faulty 2) ((empty_world False)\<lparr>remotes := [WebContents 7], listeners := 1\<rparr>)
           [Attach (BrowserWindow 8), Subscribe ''news'' 1, Subscribe ''news'' 2, Subscribe ''news'' 3,
            TransportChanges (WebContents 7) Throws])))))
      = [WebContents 7]"
proof -
  let ?init = "((empty_world False)\<lparr>remotes := [WebContents 7], listeners := 1\<rparr>)"
  let ?w = "run (faulty 2) ?init [Attach (BrowserWindow 8), Subscribe ''news'' 1, Subscribe ''news'' 2, Subscribe ''news'' 3]"
  let ?v = "run (faulty 2) ?init [Attach (BrowserWindow 8), Subscribe ''news'' 1, Subscribe ''news'' 2, Subscribe ''news'' 3, TransportChanges (WebContents 7) Throws]"
  have w: "channels ?w = [''news'' \<mapsto> [User 1, User 2, User 3]]"
    "remotes ?w = [WebContents 7, WebContents 8]" "transport ?w = (\<lambda>x. Returns)"
    by (simp_all add: run_def subscribe_channels set_add_def attach_def isBrowserWindow_def)
  have v: "channels ?v = [''news'' \<mapsto> [User 1, User 2, User 3]]"
    "remotes ?v = [WebContents 7, WebContents 8]"
    "transport ?v = (\<lambda>x. Returns)(WebContents 7 := Throws)"
    by (simp_all add: run_def subscribe_channels set_add_def attach_def isBrowserWindow_def)
  have h1: "channels ?w ''news'' = Some ([User 1] @ User 2 # [User 3])" unfolding w by simp
  have h1': "channels ?v ''news'' = Some ([User 1] @ User 2 # [User 3])" unfolding v by simp
  have h2: "throws (faulty 2) (User 2)" by (simp add: faulty_def)
  have h3: "\<forall>x\<in>set [User 1]. \<not> throws (faulty 2) x" by (simp add: faulty_def)
  have u: "User 3 \<in> subscribers_of ?w ''news''" unfolding subscribers_of_def w by simp
  note a = throwing_subscriber_ends_delivery [OF h1 h2 h3, of JNull JUndefined JUndefined 0,
      unfolded w]
  note b = throwing_subscriber_ends_delivery [OF h1' h2 h3, of JNull JUndefined JUndefined 0,
      unfolded v]
  have "map fst (deliveries (effects ?w (localDispatch (faulty 2) ''news'' JNull JUndefined ?w)))
          = [User 1, User 2]"
    and "User 3 \<in> subscribers_of (localDispatch (faulty 2) ''news'' JNull JUndefined ?w) ''news''"
    and "map fst (sends (effects ?w (snd (dispatch (faulty 2) ''news'' JNull JUndefined 0 ?w))))
          = [WebContents 7, WebContents 8]"
    using a u by simp_all
  moreover
  have "map fst (sends (effects ?v (snd (dispatch (faulty 2) ''news'' JNull JUndefined 0 ?v))))
          = [WebContents 7]"
    using b by simp
  ultimately show ?thesis
    using h1 h2 h3 constructor_window [of 7] by simp
qed

text \<open>
  C5, as stated, fails: of three subscribers of a channel, the third gets no delivery when
  the callback of the second throws.
\<close>

theorem throwing_subscriber_starves_the_next:
  "deliveries (trace (run (faulty 2) (empty_world False)
       [Subscribe ''news'' 1, Subscribe ''news'' 2, Subscribe ''news'' 3,
        Dispatch ''news'' (JStr ''hello'') JUndefined 0]))
   = [(User 1, JStr ''hello'', JUndefined), (User 2, JStr ''hello'', JUndefined)]
   \<and> channels (run (faulty 2) (empty_world False)
       [Subscribe ''news'' 1, Subscribe ''news'' 2, Subscribe ''news'' 3]) ''news''
     = Some [User 1, User 2, User 3]"
  by (simp add: eval_defs)

section \<open>Publishing into the void\<close>

text \<open>
  C6, as amended. A \<open>dispatch\<close> that does not wait, on a channel without subscribers, calls
  no subscriber and changes neither the registry, nor the timers, nor the remotes; the
  promise it returns is fulfilled with \<open>undefined\<close>. Its effects are the call of \<open>resolve\<close>
  and the relay: one envelope handed to the \<open>send\<close> of each attached remote in turn, up to
  and including the first whose \<open>send\<close> throws; that exception ends the relay and is given
  to \<open>reject\<close>, which does nothing to the promise. With no remote attached the call does
  nothing else than fulfil its promise.
\<close>

theorem dispatch_to_no_subscribers:
  assumes "channels w c = None"
    and "\<not> truthy (option_field opts ''waiting'')"
  shows "channels (snd (dispatch beh c payload opts rnd w)) = channels w
       \<and> timers (snd (dispatch beh c payload opts rnd w)) = timers w
       \<and> closures (snd (dispatch beh c payload opts rnd w)) = closures w
       \<and> remotes (snd (dispatch beh c payload opts rnd w)) = remotes w
       \<and> listeners (snd (dispatch beh c payload opts rnd w)) = listeners w
       \<and> promises (snd (dispatch beh c payload opts rnd w)) (fst (dispatch beh c payload opts rnd w))
           = Some (Fulfilled JUndefined)
       \<and> deliveries (effects w (snd (dispatch beh c payload opts rnd w))) = []
       \<and> effects w (snd (dispatch beh c payload opts rnd w)) =
           ResolveCalled (next_promise w) JUndefined
           # map (\<lambda>(i, x). Sent x CHANNEL (MessageEnvelope (next_addr w + i) (JStr c) payload JUndefined))
                 (enumerate 0 (tried (transport w) (remotes w)))
           @ (case failing (transport w) (remotes w) of
                None \<Rightarrow> []
              | Some x \<Rightarrow> [SendThrew x SendError, RejectCalled (next_promise w) SendError])"
proof -
  let ?w1 = "resolve (next_promise w) JUndefined (promised w)"
  let ?w2 = "caught (next_promise w) (relay (remotes w) c payload JUndefined ?w1)"
  have d: "dispatch beh c payload opts rnd w = (next_promise w, ?w2)"
    using assms by (simp add: dispatch_not_waiting)
  have t: "trace ?w2 = trace w @
           ResolveCalled (next_promise w) JUndefined
           # map (\<lambda>(i, x). Sent x CHANNEL (MessageEnvelope (next_addr w + i) (JStr c) payload JUndefined))
                 (enumerate 0 (tried (transport w) (remotes w)))
           @ (case failing (transport w) (remotes w) of
                None \<Rightarrow> []
              | Some x \<Rightarrow> [SendThrew x SendError, RejectCalled (next_promise w) SendError])"
    by (simp add: caught_relay_trace)
  have e: "effects w (snd (dispatch beh c payload opts rnd w)) =
           ResolveCalled (next_promise w) JUndefined
           # map (\<lambda>(i, x). Sent x CHANNEL (MessageEnvelope (next_addr w + i) (JStr c) payload JUndefined))
                 (enumerate 0 (tried (transport w) (remotes w)))
           @ (case failing (transport w) (remotes w) of
                None \<Rightarrow> []
              | Some x \<Rightarrow> [SendThrew x SendError, RejectCalled (next_promise w) SendError])"
    unfolding d snd_conv by (rule effects_append [OF t])
  have "deliveries (map (\<lambda>(i, x). Sent x CHANNEL (f i)) xs) = []"
    for f and xs :: "(nat \<times> remote) list"
    by (induction xs) (simp_all add: split_beta)
  with e have "deliveries (effects w (snd (dispatch beh c payload opts rnd w))) = []"
    by (simp split: option.splits)
  moreover have "promises ?w2 (next_promise w) = Some (Fulfilled JUndefined)"
    by (simp add: caught_relay split: option.splits)
  ultimately show ?thesis
    using e by (simp add: d)
qed

theorem dispatch_to_no_subscribers_witness:
  "constructor False (Some (BrowserWindow 7))
     = Inr ((empty_world False)\<lparr>remotes := [WebContents 7], listeners := 1\<rparr>)
   \<and> channels (run well_behaved ((empty_world False)\<lparr>remotes := [WebContents 7], listeners := 1\<rparr>)
         [Subscribe ''news'' 1]) ''news'' = Some [User 1]
   \<and> channels (run well_behaved ((empty_world False)\<lparr>remotes := [WebContents 7], listeners := 1\<rparr>)
         [Subscribe ''news'' 1]) ''void'' = None
   \<and> \<not> truthy (option_field JUndefined ''waiting'')
   \<and> effects (run well_behaved ((empty_world False)\<lparr>remotes := [WebContents 7], listeners := 1\<rparr>)
         [Subscribe ''news'' 1])
       (snd (dispatch well_behaved ''void'' (JStr ''hello'') JUndefined 0
          (run well_behaved ((empty_world False)\<lparr>remotes := [WebContents 7], listeners := 1\<rparr>)
             [Subscribe ''news'' 1])))
       = [ResolveCalled 0 JUndefined,
          Sent (WebContents 7) CHANNEL (MessageEnvelope 0 (JStr ''void'') (JStr ''hello'') JUndefined)]
   \<and> promises (snd (dispatch well_behaved ''void'' (JStr ''hello'') JUndefined 0
          (run well_behaved ((empty_world False)\<lparr>remotes := [WebContents 7], listeners := 1\<rparr>)
             [Subscribe ''news'' 1]))) 0
       = Some (Fulfilled JUndefined)
   \<and> channels (run well_behaved ((empty_world False)\<lparr>remotes := [WebContents 7], listeners := 1\<rparr>)
         [Subscribe ''news'' 1, TransportChanges (WebContents 7) Throws]) ''void'' = None
   \<and> effects (run well_behaved ((empty_world False)\<lparr>remotes := [WebContents 7], listeners := 1\<rparr>)
         [Subscribe ''news'' 1, TransportChanges (WebContents 7) Throws])
       (snd (dispatch well_behaved ''void'' (JStr ''hello'') JUndefined 0
          (run well_behaved ((empty_world False)\<lparr>remotes := [WebContents 7], listeners := 1\<rparr>)
             [Subscribe ''news'' 1, TransportChanges (WebContents 7) Throws])))
       = [ResolveCalled 0 JUndefined,
          Sent (WebContents 7) CHANNEL (MessageEnvelope 0 (JStr ''void'') (JStr ''hello'') JUndefined),
          SendThrew (WebContents 7) SendError, RejectCalled 0 SendError]
   \<and> promises (snd (dispatch well_behaved ''void'' (JStr ''hello'') JUndefined 0
          (run well_behaved ((empty_world False)\<lparr>remotes := [WebContents 7], listeners := 1\<rparr>)
             [Subscribe ''news'' 1, TransportChanges (WebContents 7) Throws]))) 0
       = Some (Fulfilled JUndefined)"
proof -
  let ?init = "(empty_world False)\<lparr>remotes := [WebContents 7], listeners := 1\<rparr>"
  let ?w = "run well_behaved ?init [Subscribe ''news'' 1]"
  let ?v = "run well_behaved ?init [Subscribe ''news'' 1, TransportChanges (WebContents 7) Throws]"
  have w: "channels ?w = [''news'' \<mapsto> [User 1]]" "remotes ?w = [WebContents 7]"
    "transport ?w = (\<lambda>x. Returns)" "next_promise ?w = 0" "next_addr ?w = 0"
    by (simp_all add: run_def subscribe_channels set_add_def)
  have v: "channels ?v = [''news'' \<mapsto> [User 1]]" "remotes ?v = [WebContents 7]"
    "transport ?v = (\<lambda>x. Returns)(WebContents 7 := Throws)" "next_promise ?v = 0" "next_addr ?v = 0"
    by (simp_all add: run_def subscribe_channels set_add_def)
  have h1: "channels ?w ''void'' = None" unfolding w by simp
  have h1': "channels ?v ''void'' = None" unfolding v by simp
  have h2: "\<not> truthy (option_field JUndefined ''waiting'')" by (simp add: option_field_def)
  have k: "channels ?w ''news'' = Some [User 1]" unfolding w by simp
  note a = dispatch_to_no_subscribers [OF h1 h2, of well_behaved "JStr ''hello''" 0,
      unfolded dispatch_promise w]
  note b = dispatch_to_no_subscribers [OF h1' h2, of well_behaved "JStr ''hello''" 0,
      unfolded dispatch_promise v]
  have "effects ?w (snd (dispatch well_behaved ''void'' (JStr ''hello'') JUndefined 0 ?w))
       = [ResolveCalled 0 JUndefined,
          Sent (WebContents 7) CHANNEL (MessageEnvelope 0 (JStr ''void'') (JStr ''hello'') JUndefined)]"
    and "promises (snd (dispatch well_behaved ''void'' (JStr ''hello'') JUndefined 0 ?w)) 0
       = Some (Fulfilled JUndefined)"
    using a by simp_all
  moreover
  have "effects ?v (snd (dispatch well_behaved ''void'' (JStr ''hello'') JUndefined 0 ?v))
       = [ResolveCalled 0 JUndefined,
          Sent (WebContents 7) CHANNEL (MessageEnvelope 0 (JStr ''void'') (JStr ''hello'') JUndefined),
          SendThrew (WebContents 7) SendError, RejectCalled 0 SendError]"
    and "promises (snd (dispatch well_behaved ''void'' (JStr ''hello'') JUndefined 0 ?v)) 0
       = Some (Fulfilled JUndefined)"
    using b by simp_all
  ultimately show ?thesis
    using h1 h1' h2 k constructor_window [of 7] by simp
qed

text \<open>
  C6, as stated, fails: with a window attached, a \<open>dispatch\<close> on a channel without
  subscribers sends an envelope to the window.
\<close>

theorem dispatch_to_no_subscribers_reaches_remotes:
  "channels (run well_behaved (empty_world False) [Attach (BrowserWindow 7)]) ''void'' = None
   \<and> sends (trace (run well_behaved (empty_world False)
        [Attach (BrowserWindow 7), Dispatch ''void'' (JStr ''hello'') JUndefined 0]))
     = [(WebContents 7, ''electron-bus--message'',
         JObj 0 [(''type'', JStr ''electron-bus--message-envelope''), (''channel'', JStr ''void''),
                 (''payload'', JStr ''hello''), (''returnChannel'', JUndefined)])]"
  by (simp add: eval_defs)

section \<open>attach\<close>

text \<open>
  C8. For an object that lacks the capability of a remote, \<open>attach\<close> fails with the error
  for an invalid remote, and so does a constructor given that object. The bus is as it
  was: the set of remotes is unchanged, and a later \<open>dispatch\<close> calls \<open>send\<close> on remotes
  attached before and on nothing else: on each of them in turn, up to and including the
  first whose \<open>send\<close> throws.
\<close>

theorem attach_rejects_incapable:
  assumes "\<not> capable r"
  shows "attach r w = Inl InvalidRemote
       \<and> constructor False (Some r) = Inl InvalidRemote
       \<and> step beh w (Attach r) = w
       \<and> set (map fst (sends (effects w (snd (dispatch beh c payload opts rnd (step beh w (Attach r)))))))
           \<subseteq> set (remotes w)
       \<and> map fst (sends (effects w (snd (dispatch beh c payload opts rnd (step beh w (Attach r))))))
           = tried (transport w) (remotes w)"
proof -
  from assms obtain ms where "r = OtherObject ms"
    by (cases r) (simp_all add: capable_def)
  then have "attach r w' = Inl InvalidRemote" for w'
    by (simp add: attach_def isBrowserWindow_def)
  then show ?thesis
    by (simp add: constructor_def empty_world_def dispatch_sends_to tried_subset)
qed

theorem attach_rejects_incapable_witness:
  "\<not> capable (OtherObject [''on''])
   \<and> attach (OtherObject [''on'']) (empty_world False) = Inl InvalidRemote
   \<and> step well_behaved (empty_world False) (Attach (OtherObject [''on''])) = empty_world False
   \<and> map fst (sends (effects (empty_world False)
        (snd (dispatch well_behaved ''news'' JNull JUndefined 0
               (step well_behaved (empty_world False) (Attach (OtherObject [''on''])))))))
      = []"
proof -
  have h: "\<not> capable (OtherObject [''on''])" by (simp add: capable_def)
  show ?thesis
    using attach_rejects_incapable [OF h, of "empty_world False" well_behaved "''news''" JNull JUndefined 0] h
    by (auto simp del: step.simps)
qed

section \<open>The deadline\<close>

text \<open>
  C10. A waiting \<open>dispatch\<close> whose \<open>timeout\<close> is falsy (zero, for one) does what the same
  call without a \<open>timeout\<close> does: the timer it arms has the delay 15000.
\<close>

theorem falsy_timeout_arms_default:
  assumes "truthy (option_field opts ''waiting'')"
    and "\<not> truthy (option_field opts ''timeout'')"
  shows "dispatch beh c payload opts rnd w
           = dispatch beh c payload (JObj a [(''waiting'', JBool True)]) rnd w
       \<and> (\<exists>es. effects w (snd (dispatch beh c payload opts rnd w))
                 = TimerSet (next_timer w) (next_promise w) (JNum 15000) # es)
       \<and> deadline (JNum 0) = JNum 15000"
proof -
  have o: "truthy (option_field (JObj a [(''waiting'', JBool True)]) ''waiting'')"
    "option_field (JObj a [(''waiting'', JBool True)]) ''timeout'' = JUndefined"
    by (simp_all add: option_field_def)
  have "dispatch beh c payload opts rnd w
           = dispatch beh c payload (JObj a [(''waiting'', JBool True)]) rnd w"
    using assms(2) by (simp only: dispatch_waiting [OF assms(1)] dispatch_waiting [OF o(1)] o(2))
      (simp add: deadline_def)
  moreover have "\<exists>es. effects w (snd (dispatch beh c payload opts rnd w))
                 = TimerSet (next_timer w) (next_promise w) (JNum 15000) # es"
    using dispatch_effects [of w beh c payload opts rnd] assms by (auto simp: deadline_def)
  ultimately show ?thesis by (simp add: deadline_def)
qed


theorem falsy_timeout_arms_default_witness:
  "truthy (option_field (JObj 0 [(''waiting'', JBool True), (''timeout'', JNum 0)]) ''waiting'')
   \<and> \<not> truthy (option_field (JObj 0 [(''waiting'', JBool True), (''timeout'', JNum 0)]) ''timeout'')
   \<and> dispatch well_behaved ''ask'' JNull (JObj 0 [(''waiting'', JBool True), (''timeout'', JNum 0)]) 71 (empty_world False)
       = dispatch well_behaved ''ask'' JNull (JObj 0 [(''waiting'', JBool True)]) 71 (empty_world False)
   \<and> (\<exists>es. effects (empty_world False)
              (snd (dispatch well_behaved ''ask'' JNull (JObj 0 [(''waiting'', JBool True), (''timeout'', JNum 0)]) 71
                     (empty_world False)))
            = TimerSet 1 0 (JNum 15000) # es)"
proof -
  let ?o = "JObj 0 [(''waiting'', JBool True), (''timeout'', JNum 0)]"
  have h1: "truthy (option_field ?o ''waiting'')" by (simp add: option_field_def)
  have h2: "\<not> truthy (option_field ?o ''timeout'')" by (simp add: option_field_def)
  show ?thesis
    using falsy_timeout_arms_default [OF h1 h2, of well_behaved "''ask''" JNull 71 "empty_world False" 0] h1 h2
    by auto
qed

section \<open>The invariant of a run\<close>

lemma orderly_empty: "orderly (empty_world r)"
  unfolding orderly_def
  by (auto simp: in_phase_def history_def subscribers_of_def intro!: exI [of _ NeverCalled])

lemma neutral_about: "neutral e \<Longrightarrow> \<not> about p t e"
  by (cases e rule: neutral.cases) simp_all

lemma neutral_no_timer: "neutral e \<Longrightarrow> e \<noteq> TimerCleared t \<and> e \<noteq> TimerFired t"
  by (cases e rule: neutral.cases) simp_all

lemma history_extend:
  assumes "trace w' = trace w @ es" "closures w' p = closures w p"
  shows "history p w' = history p w @ filter (about p (snd (closures w p))) es"
  using assms by (simp add: history_def)

lemma in_phase_cong:
  assumes "history p w' = history p w" "promises w' p = promises w p"
    and "closures w' p = closures w p"
    and "\<forall>t. (map_option fst (timers w' t) = Some p) = (map_option fst (timers w t) = Some p)"
    and "timers w' (snd (closures w p)) = timers w (snd (closures w p))"
    and "\<forall>c. (ReturnPath p \<in> subscribers_of w' c) = (ReturnPath p \<in> subscribers_of w c)"
    and "(p < next_promise w') = (p < next_promise w)"
  shows "in_phase p w' ph = in_phase p w ph"
  using assms by (simp add: in_phase_def)

lemma in_phase_neutral:
  assumes "trace w' = trace w @ es" "\<forall>e\<in>set es. neutral e"
    and "timers w' = timers w" "closures w' = closures w" "promises w' = promises w"
    and "next_promise w' = next_promise w"
    and "\<forall>c. (ReturnPath p \<in> subscribers_of w' c) = (ReturnPath p \<in> subscribers_of w c)"
  shows "in_phase p w' = in_phase p w"
proof -
  have h: "history p w' = history p w"
    using history_extend [OF assms(1), of p] assms(2,4) by (simp add: neutral_about)
  show ?thesis
    by (rule ext, rule in_phase_cong) (simp_all add: h assms)
qed

lemma orderly_neutral:
  assumes "orderly w"
    and "trace w' = trace w @ es" "\<forall>e\<in>set es. neutral e"
    and "timers w' = timers w" "closures w' = closures w" "promises w' = promises w"
    and "next_promise w' = next_promise w" "next_timer w' = next_timer w"
    and "\<forall>c p. (ReturnPath p \<in> subscribers_of w' c) = (ReturnPath p \<in> subscribers_of w c)"
    and "\<forall>c. distinct (case channels w' c of None \<Rightarrow> [] | Some s \<Rightarrow> s)"
  shows "orderly w'"
proof -
  have h: "history p w' = history p w" for p
    using history_extend [OF assms(2), of p] assms(3,5) by (simp add: neutral_about)
  have "in_phase p w' = in_phase p w" for p
    by (rule ext, rule in_phase_cong) (simp_all add: h assms)
  moreover have "(TimerCleared t \<in> set (trace w') \<or> TimerFired t \<in> set (trace w'))
      = (TimerCleared t \<in> set (trace w) \<or> TimerFired t \<in> set (trace w))" for t
    using assms(2,3) neutral_no_timer by auto
  ultimately show ?thesis
    using assms(1,10) unfolding orderly_def by (simp add: assms(5,8))
qed

lemma phase_exists: "orderly w \<Longrightarrow> \<exists>ph. in_phase p w ph"
  by (simp add: orderly_def)

lemma subscribed_awaiting:
  assumes "orderly w" "ReturnPath q \<in> subscribers_of w c"
  shows "\<exists>b d. in_phase q w (Awaiting b d) \<and> c = fst (closures w q)"
proof -
  obtain ph where ph: "in_phase q w ph" using phase_exists [OF assms(1)] by blast
  with assms(2) have "live ph \<and> c = fst (closures w q)" by (simp add: in_phase_def)
  then show ?thesis using ph by (cases ph) auto
qed

lemma armed_awaiting:
  assumes "orderly w" "timers w t = Some (q, d)"
  shows "\<exists>b. in_phase q w (Awaiting b d) \<and> t = snd (closures w q)"
proof -
  obtain ph where ph: "in_phase q w ph" using phase_exists [OF assms(1)] by blast
  from assms(2) have "map_option fst (timers w t) = Some q" by simp
  with ph have l: "live ph" "t = snd (closures w q)" by (simp_all add: in_phase_def)
  then obtain b d' where "ph = Awaiting b d'" by (cases ph) auto
  with ph l(2) assms(2) show ?thesis by (auto simp: in_phase_def)
qed

lemma awaiting_facts:
  assumes "in_phase q w (Awaiting b d)"
  shows "0 < snd (closures w q)"
    and "promises w q = Some (if b then Rejected SendError else Pending)"
    and "timers w (snd (closures w q)) = Some (q, d)"
    and "history q w = TimerSet (snd (closures w q)) q d # send_failure q b"
    and "\<And>c'. (ReturnPath q \<in> subscribers_of w c') = (c' = fst (closures w q))"
    and "\<And>t. (map_option fst (timers w t) = Some q) = (t = snd (closures w q))"
    and "q < next_promise w"
  using assms by (simp_all add: in_phase_def)

lemma other_timer:
  assumes "orderly w" "0 < snd (closures w q)" "p \<noteq> q"
  shows "snd (closures w p) \<noteq> snd (closures w q)"
  using assms unfolding orderly_def by (metis less_numeral_extra(3))

lemma distinct_unsubscribe:
  assumes "\<forall>c. distinct (case channels w c of None \<Rightarrow> [] | Some s \<Rightarrow> s)"
    and "channels w' = channels (unsubscribe c cb w)"
  shows "\<forall>c. distinct (case channels w' c of None \<Rightarrow> [] | Some s \<Rightarrow> s)"
proof
  fix c'
  show "distinct (case channels w' c' of None \<Rightarrow> [] | Some s \<Rightarrow> s)"
    using assms(1) [rule_format, of c'] assms(1) [rule_format, of c]
    by (auto simp: assms(2) unsubscribe_channels set_delete_def distinct_removeAll split: option.splits)
qed

lemma distinct_subscribe:
  assumes "\<forall>c. distinct (case channels w c of None \<Rightarrow> [] | Some s \<Rightarrow> s)"
    and "channels w' = channels (snd (subscribe c cb w))"
  shows "\<forall>c. distinct (case channels w' c of None \<Rightarrow> [] | Some s \<Rightarrow> s)"
proof
  fix c'
  show "distinct (case channels w' c' of None \<Rightarrow> [] | Some s \<Rightarrow> s)"
    using assms(1) [rule_format, of c'] assms(1) [rule_format, of c]
    by (auto simp: assms(2) subscribe_channels set_add_def split: option.splits)
qed

lemma orderly_distinct:
  "orderly w \<Longrightarrow> \<forall>c. distinct (case channels w c of None \<Rightarrow> [] | Some s \<Rightarrow> s)"
  by (simp add: orderly_def)

lemma orderly_unique:
  "orderly w \<Longrightarrow> snd (closures w p) = snd (closures w q) \<Longrightarrow> p = q \<or> snd (closures w p) = 0"
  by (simp add: orderly_def)

lemma orderly_below: "orderly w \<Longrightarrow> snd (closures w p) < next_timer w"
  by (simp add: orderly_def)

lemma orderly_bound:
  "orderly w \<Longrightarrow> TimerCleared t \<in> set (trace w) \<or> TimerFired t \<in> set (trace w)
     \<Longrightarrow> 0 < t \<and> t < next_timer w"
  by (auto simp: orderly_def)

text \<open>
  The closure of a waiting call, when it is called: the call it belongs to is answered,
  and the other calls are where they were.
\<close>

lemma return_path_unsubscribes:
  "subscribers_of (return_path q v w) c' =
     (if c' = fst (closures w q) then subscribers_of w (fst (closures w q)) - {ReturnPath q}
      else subscribers_of w c')"
proof -
  have "subscribers_of (return_path q v w) = subscribers_of (unsubscribe (fst (closures w q)) (ReturnPath q) w)"
    by (rule subscribers_of_cong) simp
  then show ?thesis by (simp add: subscribers_of_unsubscribe)
qed

lemma return_path_answers:
  assumes "in_phase q w (Awaiting b d)"
  shows "in_phase q (return_path q v (log (Invoked (ReturnPath q) v r) w)) (Answered b d v r)"
proof -
  let ?w1 = "log (Invoked (ReturnPath q) v r) w"
  let ?w' = "return_path q v ?w1"
  let ?rc = "fst (closures w q)" and ?t = "snd (closures w q)"
  note f = awaiting_facts [OF assms]
  have tr: "trace ?w' = trace w @ [Invoked (ReturnPath q) v r, TimerCleared ?t,
                 Unsubscribed ?rc (ReturnPath q), ResolveCalled q v]"
    by simp
  have cl: "closures ?w' = closures w" by simp
  have ti: "timers ?w' = (timers w)(?t := None)" by simp
  have pr: "promises ?w' q = Some (if b then Rejected SendError else Fulfilled v)"
    using f(2) by simp
  have np: "next_promise ?w' = next_promise w" by simp
  have s1: "subscribers_of ?w1 = subscribers_of w" by (rule subscribers_of_cong) simp
  have sub: "subscribers_of ?w' c' = (if c' = ?rc then subscribers_of w ?rc - {ReturnPath q} else subscribers_of w c')"
    for c' by (simp add: return_path_unsubscribes s1)
  have h: "history q ?w' = (TimerSet ?t q d # send_failure q b)
             @ [Invoked (ReturnPath q) v r, TimerCleared ?t, Unsubscribed ?rc (ReturnPath q), ResolveCalled q v]"
    using history_extend [OF tr, of q] f(4) by (simp add: cl)
  show ?thesis
    unfolding in_phase_def
    using h f(1,2,5,6,7) by (auto simp: cl ti sub np)
qed

lemma return_path_others:
  assumes "orderly w" "in_phase q w (Awaiting b d)" "p \<noteq> q" "in_phase p w ph"
  shows "in_phase p (return_path q v (log (Invoked (ReturnPath q) v r) w)) ph"
proof -
  let ?w1 = "log (Invoked (ReturnPath q) v r) w"
  let ?w' = "return_path q v ?w1"
  let ?rc = "fst (closures w q)" and ?t = "snd (closures w q)"
  note f = awaiting_facts [OF assms(2)]
  have tr: "trace ?w' = trace w @ [Invoked (ReturnPath q) v r, TimerCleared ?t,
                 Unsubscribed ?rc (ReturnPath q), ResolveCalled q v]"
    by simp
  have cl: "closures ?w' = closures w" by simp
  have ti: "timers ?w' = (timers w)(?t := None)" by simp
  have pr: "promises ?w' p = promises w p" using assms(3) by simp
  have np: "next_promise ?w' = next_promise w" by simp
  have s1: "subscribers_of ?w1 = subscribers_of w" by (rule subscribers_of_cong) simp
  have sub: "subscribers_of ?w' c' = (if c' = ?rc then subscribers_of w ?rc - {ReturnPath q} else subscribers_of w c')"
    for c' by (simp add: return_path_unsubscribes s1)
  have ne: "snd (closures w p) \<noteq> ?t" using other_timer [OF assms(1) f(1) assms(3)] .
  have "history p ?w' = history p w"
    using history_extend [OF tr, of p] assms(3) ne by (simp add: cl)
  moreover have "(map_option fst (timers ?w' t) = Some p) = (map_option fst (timers w t) = Some p)" for t
    using f(3) assms(3) by (auto simp: ti)
  ultimately show ?thesis
    using assms(3,4) ne unfolding in_phase_def by (auto simp: cl ti pr sub np)
qed

lemma orderly_return_path:
  assumes "orderly w" "ReturnPath q \<in> subscribers_of w c"
  shows "orderly (return_path q v (log (Invoked (ReturnPath q) v r) w))"
proof -
  let ?w' = "return_path q v (log (Invoked (ReturnPath q) v r) w)"
  let ?rc = "fst (closures w q)" and ?t = "snd (closures w q)"
  obtain b d where q: "in_phase q w (Awaiting b d)"
    using subscribed_awaiting [OF assms] by blast
  note f = awaiting_facts [OF q]
  have tr: "trace ?w' = trace w @ [Invoked (ReturnPath q) v r, TimerCleared ?t,
                 Unsubscribed ?rc (ReturnPath q), ResolveCalled q v]"
    by simp
  have cl: "closures ?w' = closures w" by simp
  have ch: "channels ?w' = channels (unsubscribe ?rc (ReturnPath q) w)"
    by (simp add: unsubscribe_channels split: option.splits)
  have "\<exists>ph. in_phase p ?w' ph" for p
    using return_path_answers [OF q, of v r] return_path_others [OF assms(1) q, of p _ v r]
      phase_exists [OF assms(1), of p]
    by (cases "p = q") auto
  moreover have "\<forall>c'. distinct (case channels ?w' c' of None \<Rightarrow> [] | Some s \<Rightarrow> s)"
    by (rule distinct_unsubscribe [OF orderly_distinct [OF assms(1)] ch])
  moreover have "0 < t \<and> t < next_timer ?w'"
    if "TimerCleared t \<in> set (trace ?w') \<or> TimerFired t \<in> set (trace ?w')" for t
    using that assms(1) f(1) unfolding orderly_def tr by auto
  ultimately show ?thesis
    using assms(1) unfolding orderly_def by (simp add: cl)
qed

text \<open>
  The closure of the timer of a waiting call, when the timer fires: the call has timed
  out, and the other calls are where they were.
\<close>

lemma fire_unfold:
  "timers w t = Some (q, d) \<Longrightarrow>
     fire t w = on_timeout q (log (TimerFired t) (w\<lparr>timers := (timers w)(t := None)\<rparr>))"
  by (simp add: fire_def)

lemma fire_idle [simp]: "timers w t = None \<Longrightarrow> fire t w = w"
  by (simp add: fire_def)

lemma fire_changes:
  assumes "in_phase q w (Awaiting b d)"
  shows "trace (fire (snd (closures w q)) w) =
           trace w @ [TimerFired (snd (closures w q)),
                      Unsubscribed (fst (closures w q)) (ReturnPath q), RejectCalled q TimeOut]"
    and "closures (fire (snd (closures w q)) w) = closures w"
    and "timers (fire (snd (closures w q)) w) = (timers w)(snd (closures w q) := None)"
    and "promises (fire (snd (closures w q)) w) =
           (if b then promises w else (promises w)(q \<mapsto> Rejected TimeOut))"
    and "next_promise (fire (snd (closures w q)) w) = next_promise w"
    and "next_timer (fire (snd (closures w q)) w) = next_timer w"
    and "channels (fire (snd (closures w q)) w)
           = channels (unsubscribe (fst (closures w q)) (ReturnPath q) w)"
    and "subscribers_of (fire (snd (closures w q)) w) c' =
           (if c' = fst (closures w q) then subscribers_of w (fst (closures w q)) - {ReturnPath q}
            else subscribers_of w c')"
proof -
  let ?t = "snd (closures w q)" and ?rc = "fst (closures w q)"
  note f = awaiting_facts [OF assms]
  have u: "fire ?t w = on_timeout q (log (TimerFired ?t) (w\<lparr>timers := (timers w)(?t := None)\<rparr>))"
    by (rule fire_unfold [OF f(3)])
  show "trace (fire ?t w) = trace w @ [TimerFired ?t, Unsubscribed ?rc (ReturnPath q), RejectCalled q TimeOut]"
    unfolding u by simp
  show "closures (fire ?t w) = closures w" unfolding u by simp
  show "timers (fire ?t w) = (timers w)(?t := None)" unfolding u by simp
  show "promises (fire ?t w) = (if b then promises w else (promises w)(q \<mapsto> Rejected TimeOut))"
    unfolding u using f(2) by simp
  show "next_promise (fire ?t w) = next_promise w" unfolding u by simp
  show "next_timer (fire ?t w) = next_timer w" unfolding u by simp
  show ch: "channels (fire ?t w) = channels (unsubscribe ?rc (ReturnPath q) w)"
    unfolding u by (simp add: unsubscribe_channels split: option.splits)
  have "subscribers_of (fire ?t w) = subscribers_of (unsubscribe ?rc (ReturnPath q) w)"
    by (rule subscribers_of_cong) (rule ch)
  then show "subscribers_of (fire ?t w) c' =
           (if c' = ?rc then subscribers_of w ?rc - {ReturnPath q} else subscribers_of w c')"
    by (simp add: subscribers_of_unsubscribe)
qed

lemma fire_times_out:
  assumes "in_phase q w (Awaiting b d)"
  shows "in_phase q (fire (snd (closures w q)) w) (TimedOut b d)"
proof -
  let ?t = "snd (closures w q)" and ?rc = "fst (closures w q)"
  let ?w' = "fire ?t w"
  note f = awaiting_facts [OF assms]
  note c = fire_changes [OF assms]
  have h: "history q ?w' = (TimerSet ?t q d # send_failure q b)
             @ [TimerFired ?t, Unsubscribed ?rc (ReturnPath q), RejectCalled q TimeOut]"
    using history_extend [OF c(1), of q] f(4) by (simp add: c(2))
  have pr: "promises ?w' q = Some (if b then Rejected SendError else Rejected TimeOut)"
    using f(2) by (simp add: c(4))
  show ?thesis
    unfolding in_phase_def
    using h f(1,5,6,7) by (auto simp: c(2,3,5,8) pr)
qed

lemma fire_others:
  assumes "orderly w" "in_phase q w (Awaiting b d)" "p \<noteq> q" "in_phase p w ph"
  shows "in_phase p (fire (snd (closures w q)) w) ph"
proof -
  let ?t = "snd (closures w q)" and ?rc = "fst (closures w q)"
  let ?w' = "fire ?t w"
  note f = awaiting_facts [OF assms(2)]
  note c = fire_changes [OF assms(2)]
  have ne: "snd (closures w p) \<noteq> ?t" using other_timer [OF assms(1) f(1) assms(3)] .
  have pr: "promises ?w' p = promises w p" using assms(3) by (simp add: c(4))
  have "history p ?w' = history p w"
    using history_extend [OF c(1), of p] assms(3) ne by (simp add: c(2))
  moreover have "(map_option fst (timers ?w' t') = Some p) = (map_option fst (timers w t') = Some p)" for t'
    using f(3) assms(3) by (auto simp: c(3))
  ultimately show ?thesis
    using assms(3,4) ne unfolding in_phase_def by (auto simp: c(2,3,5,8) pr)
qed

lemma orderly_fire:
  assumes "orderly w"
  shows "orderly (fire t w)"
proof (cases "timers w t")
  case None
  with assms show ?thesis by simp
next
  case (Some qd)
  obtain q d where qd: "qd = (q, d)" by (cases qd)
  from Some qd have armed: "timers w t = Some (q, d)" by simp
  from armed_awaiting [OF assms armed] obtain b
    where q: "in_phase q w (Awaiting b d)" and t: "t = snd (closures w q)"
    by blast
  let ?w' = "fire (snd (closures w q)) w"
  note f = awaiting_facts [OF q]
  note c = fire_changes [OF q]
  have "\<exists>ph. in_phase p ?w' ph" for p
    using fire_times_out [OF q] fire_others [OF assms q, of p] phase_exists [OF assms, of p]
    by (cases "p = q") auto
  moreover have "\<forall>c'. distinct (case channels ?w' c' of None \<Rightarrow> [] | Some s \<Rightarrow> s)"
    by (rule distinct_unsubscribe [OF orderly_distinct [OF assms] c(7)])
  moreover have "0 < t' \<and> t' < next_timer ?w'"
    if "TimerCleared t' \<in> set (trace ?w') \<or> TimerFired t' \<in> set (trace ?w')" for t'
    using that assms f(1) orderly_below [OF assms, of q] orderly_bound [OF assms, of t']
    unfolding c(1) c(6) by auto
  ultimately have "orderly ?w'"
    using assms unfolding orderly_def by (simp add: c(2,6))
  then show ?thesis by (simp add: t)
qed

text \<open>The start of a call: its promise is made, and it is fulfilled or the call waits.\<close>

lemma never_called:
  assumes "orderly w"
  shows "in_phase (next_promise w) w NeverCalled"
proof -
  obtain ph where "in_phase (next_promise w) w ph" using phase_exists [OF assms] by blast
  then show ?thesis by (cases ph) (auto simp: in_phase_def)
qed

lemma resolve_promised_phase:
  assumes "orderly w"
  shows "in_phase (next_promise w) (resolve (next_promise w) JUndefined (promised w))
           (FireAndForget False)"
proof -
  let ?q = "next_promise w"
  let ?w' = "resolve ?q JUndefined (promised w)"
  note q = never_called [OF assms]
  have tr: "trace ?w' = trace w @ [ResolveCalled ?q JUndefined]" by simp
  have cl: "closures ?w' = closures w" by simp
  have su: "subscribers_of ?w' = subscribers_of w" by (rule subscribers_of_cong) simp
  show ?thesis
    using q history_extend [OF tr, of ?q] unfolding in_phase_def
    by (auto simp: cl su send_failure_def)
qed

lemma orderly_resolve_promised:
  assumes "orderly w"
  shows "orderly (resolve (next_promise w) JUndefined (promised w))"
proof -
  let ?q = "next_promise w"
  let ?w' = "resolve ?q JUndefined (promised w)"
  have tr: "trace ?w' = trace w @ [ResolveCalled ?q JUndefined]" by simp
  have cl: "closures ?w' = closures w" by simp
  have su: "subscribers_of ?w' = subscribers_of w" by (rule subscribers_of_cong) simp
  have php: "in_phase p ?w' ph" if "p \<noteq> ?q" "in_phase p w ph" for p ph
    using that history_extend [OF tr, of p] unfolding in_phase_def
    by (auto simp: cl su)
  have "\<exists>ph. in_phase p ?w' ph" for p
    using resolve_promised_phase [OF assms] php [of p] phase_exists [OF assms, of p]
    by (cases "p = ?q") auto
  moreover have "(TimerCleared t \<in> set (trace ?w') \<or> TimerFired t \<in> set (trace ?w'))
      = (TimerCleared t \<in> set (trace w) \<or> TimerFired t \<in> set (trace w))" for t
    by (auto simp: tr)
  ultimately show ?thesis
    using assms unfolding orderly_def by (simp add: cl)
qed

lemma about_other_timer:
  assumes "\<forall>t'. TimerCleared t' \<in> set tr \<or> TimerFired t' \<in> set tr \<longrightarrow> t' \<noteq> t1 \<and> t' \<noteq> t2"
  shows "filter (about q t1) tr = filter (about q t2) tr"
proof (rule filter_cong [OF refl])
  fix e assume "e \<in> set tr"
  with assms show "about q t1 e = about q t2 e"
    by (cases e) auto
qed

lemma await_reply_awaiting:
  assumes "orderly w"
  shows "in_phase (next_promise w) (await_reply (next_promise w) rc d (promised w)) (Awaiting False d)"
proof -
  let ?q = "next_promise w" and ?t = "next_timer w"
  let ?w' = "await_reply ?q rc d (promised w)"
  note q = never_called [OF assms]
  have below: "snd (closures w p) < ?t" for p
    by (rule orderly_below [OF assms])
  have bound: "0 < t' \<and> t' < ?t" if "TimerCleared t' \<in> set (trace w) \<or> TimerFired t' \<in> set (trace w)" for t'
    by (rule orderly_bound [OF assms that])
  have tr: "trace ?w' = trace w @ [TimerSet ?t ?q d]" by simp
  have cl: "closures ?w' = (closures w)(?q := (rc, ?t))" by simp
  have ti: "timers ?w' = (timers w)(?t \<mapsto> (?q, d))" by simp
  have pr: "promises ?w' = (promises w)(?q \<mapsto> Pending)" by simp
  have np: "next_promise ?w' = Suc ?q" "next_timer ?w' = Suc ?t" by simp_all
  have ch: "channels ?w' = channels (snd (subscribe rc (ReturnPath ?q) w))"
    by (simp add: subscribe_channels)
  have su: "subscribers_of ?w' = subscribers_of (snd (subscribe rc (ReturnPath ?q) w))"
    by (rule subscribers_of_cong) (rule ch)
  have sub: "subscribers_of ?w' c' = (if c' = rc then insert (ReturnPath ?q) (subscribers_of w rc) else subscribers_of w c')"
    for c' unfolding su by (rule subscribers_of_subscribe)
  have "filter (about ?q ?t) (trace w) = filter (about ?q 0) (trace w)"
    by (rule about_other_timer) (use bound in fastforce)
  also have "\<dots> = []" using q by (auto simp: in_phase_def history_def)
  finally have old: "filter (about ?q ?t) (trace w) = []" .
  show ?thesis
    using q old below [of ?q] unfolding in_phase_def
    by (auto simp: history_def tr cl ti pr np sub send_failure_def)
qed

lemma orderly_await_reply:
  assumes "orderly w"
  shows "orderly (await_reply (next_promise w) rc d (promised w))"
proof -
  let ?q = "next_promise w" and ?t = "next_timer w"
  let ?w' = "await_reply ?q rc d (promised w)"
  note q = never_called [OF assms]
  have below: "snd (closures w p) < ?t" for p
    by (rule orderly_below [OF assms])
  have bound: "0 < t' \<and> t' < ?t" if "TimerCleared t' \<in> set (trace w) \<or> TimerFired t' \<in> set (trace w)" for t'
    by (rule orderly_bound [OF assms that])
  have tr: "trace ?w' = trace w @ [TimerSet ?t ?q d]" by simp
  have cl: "closures ?w' = (closures w)(?q := (rc, ?t))" by simp
  have ti: "timers ?w' = (timers w)(?t \<mapsto> (?q, d))" by simp
  have pr: "promises ?w' = (promises w)(?q \<mapsto> Pending)" by simp
  have np: "next_promise ?w' = Suc ?q" "next_timer ?w' = Suc ?t" by simp_all
  have ch: "channels ?w' = channels (snd (subscribe rc (ReturnPath ?q) w))"
    by (simp add: subscribe_channels)
  have su: "subscribers_of ?w' = subscribers_of (snd (subscribe rc (ReturnPath ?q) w))"
    by (rule subscribers_of_cong) (rule ch)
  have sub: "subscribers_of ?w' c' = (if c' = rc then insert (ReturnPath ?q) (subscribers_of w rc) else subscribers_of w c')"
    for c' unfolding su by (rule subscribers_of_subscribe)
  have phq: "in_phase ?q ?w' (Awaiting False d)"
    by (rule await_reply_awaiting [OF assms])
  have php: "in_phase p ?w' ph" if "p \<noteq> ?q" "in_phase p w ph" for p ph
  proof -
    have ne: "snd (closures w p) \<noteq> ?t" using below [of p] by simp
    have "history p ?w' = history p w"
      using that(1) by (simp add: history_def tr cl)
    moreover have "(map_option fst (timers ?w' t') = Some p) = (map_option fst (timers w t') = Some p)" for t'
    proof (cases "t' = ?t")
      case True
      have "map_option fst (timers w ?t) \<noteq> Some p"
        using that(2) ne unfolding in_phase_def by auto
      with True that(1) show ?thesis by (simp add: ti)
    next
      case False
      then show ?thesis by (simp add: ti)
    qed
    ultimately show ?thesis
      using that ne unfolding in_phase_def by (auto simp: cl ti pr np sub)
  qed
  have "\<exists>ph. in_phase p ?w' ph" for p
    using phq php [of p] phase_exists [OF assms, of p] by (cases "p = ?q") auto
  moreover have "\<forall>c'. distinct (case channels ?w' c' of None \<Rightarrow> [] | Some s \<Rightarrow> s)"
    by (rule distinct_subscribe [OF orderly_distinct [OF assms] ch])
  moreover have "0 < t' \<and> t' < next_timer ?w'"
    if "TimerCleared t' \<in> set (trace ?w') \<or> TimerFired t' \<in> set (trace ?w')" for t'
    using that bound [of t'] unfolding tr np by auto
  moreover have "snd (closures ?w' p) < next_timer ?w'" for p
    using below [of p] by (simp add: cl np)
  moreover have "p1 = p2 \<or> snd (closures ?w' p1) = 0"
    if "snd (closures ?w' p1) = snd (closures ?w' p2)" for p1 p2
  proof -
    have "p1 = p2 \<or> snd (closures w p1) = 0" if "snd (closures w p1) = snd (closures w p2)"
      using orderly_unique [OF assms that] .
    with \<open>snd (closures ?w' p1) = snd (closures ?w' p2)\<close> below [of p1] below [of p2]
    show ?thesis by (auto simp: cl split: if_splits)
  qed
  ultimately show ?thesis
    unfolding orderly_def by blast
qed

lemma orderly_silent:
  assumes "orderly w"
    and "trace w' = trace w" "channels w' = channels w"
    and "timers w' = timers w" "closures w' = closures w" "promises w' = promises w"
    and "next_promise w' = next_promise w" "next_timer w' = next_timer w"
  shows "orderly w'"
proof (rule orderly_neutral [OF assms(1), of w' "[]"])
  show "\<forall>c p. (ReturnPath p \<in> subscribers_of w' c) = (ReturnPath p \<in> subscribers_of w c)"
    by (simp add: subscribers_of_cong [OF assms(3)])
  show "\<forall>c. distinct (case channels w' c of None \<Rightarrow> [] | Some s \<Rightarrow> s)"
    using orderly_distinct [OF assms(1)] by (simp add: assms(3))
qed (simp_all add: assms)

lemma orderly_clone: "orderly w \<Longrightarrow> orderly (snd (clone v w))"
  by (rule orderly_silent) simp_all

lemma invoke_others:
  assumes "x \<noteq> cb"
  shows "(x \<in> subscribers_of (snd (invoke beh cb a r w)) c) = (x \<in> subscribers_of w c)"
proof (cases cb)
  case (User u)
  have "subscribers_of (log e w) = subscribers_of w" for e
    by (rule subscribers_of_cong) simp
  with User show ?thesis by (simp split: behaviour.splits)
next
  case (ReturnPath p)
  have "subscribers_of (return_path p a w) = subscribers_of (unsubscribe (fst (closures w p)) (ReturnPath p) w)"
    by (rule subscribers_of_cong) simp
  with ReturnPath assms show ?thesis by (simp add: subscribers_of_unsubscribe)
qed

lemma orderly_invoke:
  assumes "orderly w"
    and "\<forall>q. cb = ReturnPath q \<longrightarrow> ReturnPath q \<in> subscribers_of w c"
  shows "orderly (snd (invoke beh cb a r (log (Invoked cb a r) w)))"
proof (cases cb)
  case (User u)
  let ?w' = "snd (invoke beh cb a r (log (Invoked cb a r) w))"
  have "\<exists>es. trace ?w' = trace w @ es \<and> (\<forall>e\<in>set es. neutral e)"
    using User by (cases "beh u") auto
  then obtain es where es: "trace ?w' = trace w @ es" "\<forall>e\<in>set es. neutral e" by blast
  have ch: "channels ?w' = channels w" using User by (simp split: behaviour.splits)
  show ?thesis
  proof (rule orderly_neutral [OF assms(1) es])
    show "\<forall>c p. (ReturnPath p \<in> subscribers_of ?w' c) = (ReturnPath p \<in> subscribers_of w c)"
      by (simp add: subscribers_of_cong [OF ch])
    show "\<forall>c. distinct (case channels ?w' c of None \<Rightarrow> [] | Some s \<Rightarrow> s)"
      using orderly_distinct [OF assms(1)] by (simp add: ch)
  qed (use User in \<open>simp_all split: behaviour.splits\<close>)
next
  case (ReturnPath q)
  with assms(2) have "ReturnPath q \<in> subscribers_of w c" by simp
  from orderly_return_path [OF assms(1) this] ReturnPath show ?thesis by simp
qed

lemma orderly_deliver:
  assumes "orderly w" "distinct cbs"
    and "\<forall>q. ReturnPath q \<in> set cbs \<longrightarrow> ReturnPath q \<in> subscribers_of w c"
  shows "orderly (snd (deliver beh cbs v r w))"
  using assms
proof (induction cbs arbitrary: w)
  case Nil
  then show ?case by simp
next
  case (Cons cb cbs)
  let ?w0 = "snd (clone v w)"
  let ?a = "fst (clone v w)"
  let ?w2 = "snd (invoke beh cb ?a r (log (Invoked cb ?a r) ?w0))"
  have s0: "subscribers_of ?w0 = subscribers_of w" by (rule subscribers_of_cong) simp
  have o2: "orderly ?w2"
  proof (rule orderly_invoke [OF orderly_clone [OF Cons.prems(1)]])
    show "\<forall>q. cb = ReturnPath q \<longrightarrow> ReturnPath q \<in> subscribers_of ?w0 c"
      using Cons.prems(3) by (auto simp: s0)
  qed
  have s1: "subscribers_of (log e ?w0) = subscribers_of w" for e
    unfolding s0 [symmetric] by (rule subscribers_of_cong) simp
  have rest: "\<forall>q. ReturnPath q \<in> set cbs \<longrightarrow> ReturnPath q \<in> subscribers_of ?w2 c"
  proof (intro allI impI)
    fix q assume q: "ReturnPath q \<in> set cbs"
    with Cons.prems(2) have "ReturnPath q \<noteq> cb" by auto
    from invoke_others [OF this, of beh ?a r "log (Invoked cb ?a r) ?w0" c] q Cons.prems(3)
    show "ReturnPath q \<in> subscribers_of ?w2 c" by (simp add: s1)
  qed
  from Cons.prems(2) have "distinct cbs" by simp
  from Cons.IH [OF o2 this rest] o2 show ?case
    by (simp add: deliver_Cons del: clone_changes)
qed

lemma orderly_localDispatch:
  assumes "orderly w"
  shows "orderly (localDispatch beh c v r w)"
proof (cases "channels w c")
  case None
  with assms show ?thesis by simp
next
  case (Some subs)
  have "distinct subs" using orderly_distinct [OF assms, rule_format, of c] Some by simp
  moreover have "\<forall>q. ReturnPath q \<in> set subs \<longrightarrow> ReturnPath q \<in> subscribers_of w c"
    using Some by (simp add: subscribers_of_def)
  ultimately show ?thesis
    using orderly_deliver [OF assms, of subs c beh v r] Some by (simp add: localDispatch_def)
qed

lemma in_phase_silent:
  assumes "trace w' = trace w" "channels w' = channels w"
    and "timers w' = timers w" "closures w' = closures w" "promises w' = promises w"
    and "next_promise w' = next_promise w"
  shows "in_phase p w' = in_phase p w"
  by (rule in_phase_neutral [of w' w "[]"])
     (simp_all add: assms subscribers_of_cong [OF assms(2)])

text \<open>
  A delivery to subscribers among which the closure of a call is not leaves the call
  where it was.
\<close>

lemma invoke_keeps_phase:
  assumes "orderly w" "in_phase p w ph" "cb \<noteq> ReturnPath p"
    and "\<forall>q. cb = ReturnPath q \<longrightarrow> ReturnPath q \<in> subscribers_of w c"
  shows "in_phase p (snd (invoke beh cb a r (log (Invoked cb a r) w))) ph"
proof (cases cb)
  case (User u)
  let ?w' = "snd (invoke beh cb a r (log (Invoked cb a r) w))"
  have "\<exists>es. trace ?w' = trace w @ es \<and> (\<forall>e\<in>set es. neutral e)"
    using User by (cases "beh u") auto
  then obtain es where es: "trace ?w' = trace w @ es" "\<forall>e\<in>set es. neutral e" by blast
  have ch: "channels ?w' = channels w" using User by (simp split: behaviour.splits)
  have "in_phase p ?w' = in_phase p w"
  proof (rule in_phase_neutral [OF es])
    show "\<forall>c. (ReturnPath p \<in> subscribers_of ?w' c) = (ReturnPath p \<in> subscribers_of w c)"
      by (simp add: subscribers_of_cong [OF ch])
  qed (use User in \<open>simp_all split: behaviour.splits\<close>)
  with assms(2) show ?thesis by simp
next
  case (ReturnPath q)
  with assms(3,4) have ne: "p \<noteq> q" and "ReturnPath q \<in> subscribers_of w c" by simp_all
  then obtain b d where q: "in_phase q w (Awaiting b d)"
    using subscribed_awaiting [OF assms(1)] by blast
  from return_path_others [OF assms(1) q ne assms(2)] ReturnPath show ?thesis by simp
qed

lemma deliver_keeps_phase:
  assumes "orderly w" "distinct cbs"
    and "\<forall>q. ReturnPath q \<in> set cbs \<longrightarrow> ReturnPath q \<in> subscribers_of w c"
    and "in_phase p w ph" "ReturnPath p \<notin> set cbs"
  shows "in_phase p (snd (deliver beh cbs v r w)) ph"
  using assms
proof (induction cbs arbitrary: w)
  case Nil
  then show ?case by simp
next
  case (Cons cb cbs)
  let ?w0 = "snd (clone v w)"
  let ?a = "fst (clone v w)"
  let ?w2 = "snd (invoke beh cb ?a r (log (Invoked cb ?a r) ?w0))"
  have s0: "subscribers_of ?w0 = subscribers_of w" by (rule subscribers_of_cong) simp
  have o0: "orderly ?w0" by (rule orderly_clone [OF Cons.prems(1)])
  have p0: "in_phase p ?w0 ph"
    using Cons.prems(4) in_phase_silent [of ?w0 w p] by simp
  have sub: "\<forall>q. cb = ReturnPath q \<longrightarrow> ReturnPath q \<in> subscribers_of ?w0 c"
    using Cons.prems(3) by (auto simp: s0)
  have o2: "orderly ?w2"
    by (rule orderly_invoke [OF o0 sub])
  have p2: "in_phase p ?w2 ph"
    by (rule invoke_keeps_phase [OF o0 p0 _ sub]) (use Cons.prems(5) in auto)
  have s1: "subscribers_of (log e ?w0) = subscribers_of w" for e
    unfolding s0 [symmetric] by (rule subscribers_of_cong) simp
  have rest: "\<forall>q. ReturnPath q \<in> set cbs \<longrightarrow> ReturnPath q \<in> subscribers_of ?w2 c"
  proof (intro allI impI)
    fix q assume q: "ReturnPath q \<in> set cbs"
    with Cons.prems(2) have "ReturnPath q \<noteq> cb" by auto
    from invoke_others [OF this, of beh ?a r "log (Invoked cb ?a r) ?w0" c] q Cons.prems(3)
    show "ReturnPath q \<in> subscribers_of ?w2 c" by (simp add: s1)
  qed
  from Cons.prems(2) have d: "distinct cbs" by simp
  from Cons.prems(5) have n: "ReturnPath p \<notin> set cbs" by simp
  from Cons.IH [OF o2 d rest p2 n] p2 show ?case
    by (simp add: deliver_Cons del: clone_changes)
qed

lemma localDispatch_keeps_phase:
  assumes "orderly w" "in_phase p w ph" "ReturnPath p \<notin> subscribers_of w c"
  shows "in_phase p (localDispatch beh c v r w) ph"
proof (cases "channels w c")
  case None
  with assms show ?thesis by simp
next
  case (Some subs)
  have "distinct subs" using orderly_distinct [OF assms(1), rule_format, of c] Some by simp
  moreover have "\<forall>q. ReturnPath q \<in> set subs \<longrightarrow> ReturnPath q \<in> subscribers_of w c"
    using Some by (simp add: subscribers_of_def)
  moreover have "ReturnPath p \<notin> set subs"
    using assms(3) Some by (simp add: subscribers_of_def)
  ultimately show ?thesis
    using deliver_keeps_phase [OF assms(1), of subs c p ph beh v r] assms(2) Some
    by (simp add: localDispatch_def)
qed

text \<open>The relay is about no call; the exception it ends with is given to \<open>reject\<close>.\<close>

lemma relay_neutral:
  "\<forall>e\<in>set (map (\<lambda>(i, x). Sent x CHANNEL (MessageEnvelope (n + i) (JStr c) v r)) (enumerate 0 xs)
            @ (case y of None \<Rightarrow> [] | Some x \<Rightarrow> [SendThrew x SendError])). neutral e"
  by (auto split: option.splits)

lemma orderly_relay:
  assumes "orderly w"
  shows "orderly (snd (relay rs c v r w))"
proof (rule orderly_neutral [OF assms relay_trace relay_neutral])
  show "\<forall>c' p. (ReturnPath p \<in> subscribers_of (snd (relay rs c v r w)) c') = (ReturnPath p \<in> subscribers_of w c')"
    by (simp add: subscribers_of_cong [of "snd (relay rs c v r w)" w])
  show "\<forall>c'. distinct (case channels (snd (relay rs c v r w)) c' of None \<Rightarrow> [] | Some s \<Rightarrow> s)"
    using orderly_distinct [OF assms] by simp
qed simp_all

lemma relay_keeps_phase: "in_phase p (snd (relay rs c v r w)) = in_phase p w"
proof (rule in_phase_neutral [OF relay_trace relay_neutral])
  show "\<forall>c'. (ReturnPath p \<in> subscribers_of (snd (relay rs c v r w)) c') = (ReturnPath p \<in> subscribers_of w c')"
    by (simp add: subscribers_of_cong [of "snd (relay rs c v r w)" w])
qed simp_all

lemma reject_others:
  assumes "p \<noteq> q"
  shows "in_phase p (reject q e w) = in_phase p w"
proof (rule ext, rule in_phase_cong)
  have "trace (reject q e w) = trace w @ [RejectCalled q e]" by simp
  from history_extend [OF this, of p] assms show "history p (reject q e w) = history p w"
    by simp
  show "\<forall>c. (ReturnPath p \<in> subscribers_of (reject q e w) c) = (ReturnPath p \<in> subscribers_of w c)"
    by (simp add: subscribers_of_cong [of "reject q e w" w])
qed (use assms in simp_all)

lemma reject_send_failure:
  assumes "in_phase p w ph" "ph = Awaiting False d \<or> ph = FireAndForget False"
  shows "in_phase p (reject p SendError w)
           (if ph = Awaiting False d then Awaiting True d else FireAndForget True)"
proof -
  let ?w' = "reject p SendError w"
  have tr: "trace ?w' = trace w @ [RejectCalled p SendError]" by simp
  have su: "subscribers_of ?w' = subscribers_of w" by (rule subscribers_of_cong) simp
  from assms(2) show ?thesis
  proof
    assume ph: "ph = Awaiting False d"
    with assms(1) show ?thesis
      using history_extend [OF tr, of p] unfolding in_phase_def
      by (auto simp: su send_failure_def)
  next
    assume ph: "ph = FireAndForget False"
    with assms(1) show ?thesis
      using history_extend [OF tr, of p] unfolding in_phase_def
      by (auto simp: su send_failure_def)
  qed
qed

lemma orderly_reject:
  assumes "orderly w" "in_phase p (reject p e w) ph"
  shows "orderly (reject p e w)"
proof -
  let ?w' = "reject p e w"
  have "\<exists>ph. in_phase q ?w' ph" for q
    using assms(2) reject_others [of q p e w] phase_exists [OF assms(1), of q]
    by (cases "q = p") auto
  moreover have "(TimerCleared t \<in> set (trace ?w') \<or> TimerFired t \<in> set (trace ?w'))
      = (TimerCleared t \<in> set (trace w) \<or> TimerFired t \<in> set (trace w))" for t
    by auto
  ultimately show ?thesis
    using assms(1) unfolding orderly_def by simp
qed

lemma caught_relay_phase:
  assumes "orderly w" "in_phase p w ph" "ph = Awaiting False d \<or> ph = FireAndForget False"
  shows "orderly (caught p (relay rs c v r w))"
    and "in_phase p (caught p (relay rs c v r w))
           (if ph = Awaiting False d then Awaiting (failing (transport w) rs \<noteq> None) d
            else FireAndForget (failing (transport w) rs \<noteq> None))"
proof -
  let ?w1 = "snd (relay rs c v r w)"
  have o1: "orderly ?w1" by (rule orderly_relay [OF assms(1)])
  have p1: "in_phase p ?w1 ph" using assms(2) by (simp add: relay_keeps_phase)
  note rj = reject_send_failure [OF p1 assms(3)]
  show "orderly (caught p (relay rs c v r w))"
    using o1 orderly_reject [OF o1 rj] by (simp add: caught_relay split: option.splits)
  show "in_phase p (caught p (relay rs c v r w))
           (if ph = Awaiting False d then Awaiting (failing (transport w) rs \<noteq> None) d
            else FireAndForget (failing (transport w) rs \<noteq> None))"
  proof (cases "failing (transport w) rs")
    case None
    with p1 assms(3) show ?thesis by (auto simp: caught_relay)
  next
    case (Some x)
    with rj show ?thesis by (auto simp: caught_relay)
  qed
qed

lemma dispatch_phases:
  assumes "orderly w"
  shows "orderly (snd (dispatch beh c v opts rnd w))"
    and "in_phase (next_promise w) (snd (dispatch beh c v opts rnd w))
           (if truthy (option_field opts ''waiting'')
            then Awaiting (failing (transport w) (remotes w) \<noteq> None)
                   (deadline (option_field opts ''timeout''))
            else FireAndForget (failing (transport w) (remotes w) \<noteq> None))"
proof -
  let ?p = "next_promise w"
  let ?d = "deadline (option_field opts ''timeout'')"
  let ?b = "failing (transport w) (remotes w) \<noteq> None"
  have "orderly (snd (dispatch beh c v opts rnd w))
      \<and> in_phase ?p (snd (dispatch beh c v opts rnd w))
           (if truthy (option_field opts ''waiting'') then Awaiting ?b ?d else FireAndForget ?b)"
  proof (cases "truthy (option_field opts ''waiting'')")
    case True
    let ?rc = "c @ ''-'' @ base36 rnd"
    let ?w1 = "await_reply ?p ?rc ?d (promised w)"
    let ?w2 = "localDispatch beh c v (JStr ?rc) ?w1"
    have o1: "orderly ?w1" by (rule orderly_await_reply [OF assms])
    have p1: "in_phase ?p ?w1 (Awaiting False ?d)" by (rule await_reply_awaiting [OF assms])
    have "fst (closures ?w1 ?p) = ?rc" by simp
    with awaiting_facts(5) [OF p1, of c] have "ReturnPath ?p \<notin> subscribers_of ?w1 c" by simp
    then have p2: "in_phase ?p ?w2 (Awaiting False ?d)"
      by (rule localDispatch_keeps_phase [OF o1 p1])
    have o2: "orderly ?w2" by (rule orderly_localDispatch [OF o1])
    have t: "transport ?w2 = transport w" by simp
    from caught_relay_phase [OF o2 p2, of ?d "remotes w" c v "JStr ?rc"] True show ?thesis
      by (simp add: dispatch_waiting [OF True] t)
  next
    case False
    let ?w1 = "resolve ?p JUndefined (promised w)"
    let ?w2 = "localDispatch beh c v JUndefined ?w1"
    have o1: "orderly ?w1" by (rule orderly_resolve_promised [OF assms])
    have p1: "in_phase ?p ?w1 (FireAndForget False)" by (rule resolve_promised_phase [OF assms])
    then have "ReturnPath ?p \<notin> subscribers_of ?w1 c" by (simp add: in_phase_def)
    then have p2: "in_phase ?p ?w2 (FireAndForget False)"
      by (rule localDispatch_keeps_phase [OF o1 p1])
    have o2: "orderly ?w2" by (rule orderly_localDispatch [OF o1])
    have t: "transport ?w2 = transport w" by simp
    from caught_relay_phase [OF o2 p2, of ?d "remotes w" c v JUndefined] False show ?thesis
      by (simp add: dispatch_not_waiting [OF False] t)
  qed
  then show "orderly (snd (dispatch beh c v opts rnd w))"
    and "in_phase ?p (snd (dispatch beh c v opts rnd w))
           (if truthy (option_field opts ''waiting'') then Awaiting ?b ?d else FireAndForget ?b)"
    by simp_all
qed

lemma orderly_dispatch: "orderly w \<Longrightarrow> orderly (snd (dispatch beh c v opts rnd w))"
  by (rule dispatch_phases(1))

lemma orderly_allocate: "orderly w \<Longrightarrow> orderly (snd (allocate v w))"
  by (simp add: allocate_is_clone orderly_clone)

lemma orderly_subscribe_user:
  assumes "orderly w"
  shows "orderly (snd (subscribe c (User u) w))"
proof (rule orderly_neutral [OF assms, of _ "[]"])
  show "\<forall>c' p. (ReturnPath p \<in> subscribers_of (snd (subscribe c (User u) w)) c')
                 = (ReturnPath p \<in> subscribers_of w c')"
    by (simp add: subscribers_of_subscribe)
  show "\<forall>c'. distinct (case channels (snd (subscribe c (User u) w)) c' of None \<Rightarrow> [] | Some s \<Rightarrow> s)"
    by (rule distinct_subscribe [OF orderly_distinct [OF assms] refl])
qed simp_all

lemma orderly_unsubscribe_user:
  assumes "orderly w"
  shows "orderly (unsubscribe c (User u) w)"
proof (rule orderly_neutral [OF assms, of _ "[]"])
  show "\<forall>c' p. (ReturnPath p \<in> subscribers_of (unsubscribe c (User u) w) c')
                 = (ReturnPath p \<in> subscribers_of w c')"
    by (simp add: subscribers_of_unsubscribe)
  show "\<forall>c'. distinct (case channels (unsubscribe c (User u) w) c' of None \<Rightarrow> [] | Some s \<Rightarrow> s)"
    by (rule distinct_unsubscribe [OF orderly_distinct [OF assms] refl])
qed simp_all

lemma orderly_attach: "orderly w \<Longrightarrow> attach x w = Inr w' \<Longrightarrow> orderly w'"
  by (rule orderly_silent [of w]) (auto simp: attach_def split: if_splits remote_arg.splits)

lemma orderly_onRemoteMessage:
  "orderly w \<Longrightarrow> onRemoteMessage beh data w = Inr w' \<Longrightarrow> orderly w'"
  by (auto simp: onRemoteMessage_def orderly_localDispatch
           split: sum.splits bool.splits jsval.splits)

lemma orderly_emit: "orderly w \<Longrightarrow> orderly (emit beh n data w)"
  by (induction n arbitrary: w) (auto split: sum.splits intro: orderly_onRemoteMessage)

lemma orderly_step: "orderly w \<Longrightarrow> orderly (step beh w i)"
proof (cases i)
  case (Dispatch c payload opts rnd)
  assume "orderly w"
  then show ?thesis
    unfolding Dispatch step.simps Let_def split_beta
    by (intro orderly_dispatch orderly_allocate)
next
  case (RemoteMessage data)
  assume "orderly w"
  then show ?thesis
    unfolding RemoteMessage step.simps Let_def split_beta
    by (intro orderly_emit orderly_allocate)
next
  case (TransportChanges x b)
  assume "orderly w"
  then show ?thesis
    unfolding TransportChanges step.simps by (rule orderly_silent) simp_all
qed (auto intro: orderly_subscribe_user orderly_unsubscribe_user orderly_attach orderly_fire
          split: sum.splits)

lemma orderly_run: "orderly w \<Longrightarrow> orderly (run beh w ins)"
  unfolding run_def by (induction ins arbitrary: w) (simp_all add: orderly_step)

lemma constructor_fields:
  assumes "constructor r x = Inr w0"
  shows "channels w0 = Map.empty" "timers w0 = Map.empty" "closures w0 = (\<lambda>p. ([], 0))"
    "promises w0 = Map.empty" "next_promise w0 = 0" "next_timer w0 = 1" "trace w0 = []"
    "renderer w0 = r"
  using assms
  by (auto simp: constructor_def attach_def Let_def split: if_splits option.splits remote_arg.splits)

lemma orderly_constructed: "constructor r x = Inr w0 \<Longrightarrow> orderly w0"
  by (rule orderly_silent [OF orderly_empty [of r]]) (simp_all add: constructor_fields)

lemma orderly_reachable: "constructor r x = Inr w0 \<Longrightarrow> orderly (run beh w0 ins)"
  by (rule orderly_run [OF orderly_constructed])

text \<open>
  A run only adds to the trace, and what it adds holds no \<open>reject\<close> for the \<open>send\<close> of a
  call that had returned: the exception of a \<open>send\<close> is caught in the call of \<open>dispatch\<close>
  that made it.
\<close>

lemma invoke_rejects_nothing:
  "\<exists>es. trace (snd (invoke beh cb a r w)) = trace w @ es \<and> (\<forall>q e. RejectCalled q e \<notin> set es)"
  by (cases cb) (simp_all split: behaviour.splits)

lemma deliver_rejects_nothing:
  "\<exists>es. trace (snd (deliver beh cbs v r w)) = trace w @ es \<and> (\<forall>q e. RejectCalled q e \<notin> set es)"
proof (induction cbs arbitrary: w)
  case Nil
  show ?case by simp
next
  case (Cons cb cbs)
  let ?c = "fst (clone v w)"
  let ?w1 = "log (Invoked cb ?c r) (snd (clone v w))"
  let ?w2 = "snd (invoke beh cb ?c r ?w1)"
  obtain es1 where es1: "trace ?w2 = trace ?w1 @ es1" "\<forall>q e. RejectCalled q e \<notin> set es1"
    using invoke_rejects_nothing by blast
  obtain es2 where es2: "trace (snd (deliver beh cbs v r ?w2)) = trace ?w2 @ es2"
    "\<forall>q e. RejectCalled q e \<notin> set es2"
    using Cons.IH by blast
  have t1: "trace ?w1 = trace w @ [Invoked cb ?c r]" by simp
  show ?case
  proof (cases "throws beh cb")
    case True
    then have "snd (deliver beh (cb # cbs) v r w) = ?w2"
      by (simp add: deliver_Cons del: clone_changes)
    with es1 t1 show ?thesis
      by (intro exI [of _ "Invoked cb ?c r # es1"]) simp
  next
    case False
    then have "snd (deliver beh (cb # cbs) v r w) = snd (deliver beh cbs v r ?w2)"
      by (simp add: deliver_Cons del: clone_changes)
    with es1 es2 t1 show ?thesis
      by (intro exI [of _ "Invoked cb ?c r # es1 @ es2"]) simp
  qed
qed

lemma localDispatch_rejects_nothing:
  "\<exists>es. trace (localDispatch beh c v r w) = trace w @ es \<and> (\<forall>q e. RejectCalled q e \<notin> set es)"
proof (cases "channels w c")
  case None
  then show ?thesis by simp
next
  case (Some subs)
  with deliver_rejects_nothing [of beh subs v r w] show ?thesis
    by (simp add: localDispatch_def)
qed

lemma dispatch_trace:
  "\<exists>es. trace (snd (dispatch beh c v opts rnd w)) = trace w @ es
        \<and> (\<forall>p<next_promise w. RejectCalled p SendError \<notin> set es)"
proof (cases "truthy (option_field opts ''waiting'')")
  case True
  let ?rc = "c @ ''-'' @ base36 rnd"
  let ?w1 = "await_reply (next_promise w) ?rc (deadline (option_field opts ''timeout'')) (promised w)"
  let ?w2 = "localDispatch beh c v (JStr ?rc) ?w1"
  let ?tail = "map (\<lambda>(i, x). Sent x CHANNEL (MessageEnvelope (next_addr ?w2 + i) (JStr c) v (JStr ?rc)))
                   (enumerate 0 (tried (transport ?w2) (remotes w)))
       @ (case failing (transport ?w2) (remotes w) of
            None \<Rightarrow> []
          | Some x \<Rightarrow> [SendThrew x SendError, RejectCalled (next_promise w) SendError])"
  obtain es where es: "trace ?w2 = trace ?w1 @ es" "\<forall>q e. RejectCalled q e \<notin> set es"
    using localDispatch_rejects_nothing by blast
  have "trace (snd (dispatch beh c v opts rnd w)) = trace ?w2 @ ?tail"
    unfolding dispatch_waiting [OF True] snd_conv by (rule caught_relay_trace)
  with es(1) have "trace (snd (dispatch beh c v opts rnd w))
      = trace w @ (TimerSet (next_timer w) (next_promise w) (deadline (option_field opts ''timeout'')) # es @ ?tail)"
    by simp
  moreover have "\<forall>p<next_promise w. RejectCalled p SendError
      \<notin> set (TimerSet (next_timer w) (next_promise w) (deadline (option_field opts ''timeout'')) # es @ ?tail)"
    using es(2) by (auto split: option.splits)
  ultimately show ?thesis by blast
next
  case False
  let ?w1 = "resolve (next_promise w) JUndefined (promised w)"
  let ?w2 = "localDispatch beh c v JUndefined ?w1"
  let ?tail = "map (\<lambda>(i, x). Sent x CHANNEL (MessageEnvelope (next_addr ?w2 + i) (JStr c) v JUndefined))
                   (enumerate 0 (tried (transport ?w2) (remotes w)))
       @ (case failing (transport ?w2) (remotes w) of
            None \<Rightarrow> []
          | Some x \<Rightarrow> [SendThrew x SendError, RejectCalled (next_promise w) SendError])"
  obtain es where es: "trace ?w2 = trace ?w1 @ es" "\<forall>q e. RejectCalled q e \<notin> set es"
    using localDispatch_rejects_nothing by blast
  have "trace (snd (dispatch beh c v opts rnd w)) = trace ?w2 @ ?tail"
    unfolding dispatch_not_waiting [OF False] snd_conv by (rule caught_relay_trace)
  with es(1) have "trace (snd (dispatch beh c v opts rnd w))
      = trace w @ (ResolveCalled (next_promise w) JUndefined # es @ ?tail)"
    by simp
  moreover have "\<forall>p<next_promise w. RejectCalled p SendError
      \<notin> set (ResolveCalled (next_promise w) JUndefined # es @ ?tail)"
    using es(2) by (auto split: option.splits)
  ultimately show ?thesis by blast
qed

lemma dispatch_closures:
  "p < next_promise w \<Longrightarrow> closures (snd (dispatch beh c v opts rnd w)) p = closures w p"
  by (cases "truthy (option_field opts ''waiting'')")
     (simp_all add: dispatch_waiting dispatch_not_waiting)

lemma dispatch_next_promise:
  "next_promise (snd (dispatch beh c v opts rnd w)) = Suc (next_promise w)"
  by (cases "truthy (option_field opts ''waiting'')")
     (simp_all add: dispatch_waiting dispatch_not_waiting)

lemma onRemoteMessage_grows:
  assumes "onRemoteMessage beh data w = Inr w'"
  shows "(\<exists>es. trace w' = trace w @ es \<and> (\<forall>q e. RejectCalled q e \<notin> set es))
       \<and> closures w' = closures w \<and> next_promise w' = next_promise w"
proof -
  from assms consider "w' = w" | c v r where "w' = localDispatch beh c v r w"
    by (auto simp: onRemoteMessage_def split: sum.splits bool.splits jsval.splits)
  then show ?thesis
  proof cases
    case 1
    then show ?thesis by simp
  next
    case 2
    with localDispatch_rejects_nothing [of beh c v r w] show ?thesis by simp
  qed
qed

lemma emit_grows:
  "(\<exists>es. trace (emit beh n data w) = trace w @ es \<and> (\<forall>q e. RejectCalled q e \<notin> set es))
   \<and> closures (emit beh n data w) = closures w
   \<and> next_promise (emit beh n data w) = next_promise w"
proof (induction n arbitrary: w)
  case 0
  show ?case by simp
next
  case (Suc n)
  show ?case
  proof (cases "onRemoteMessage beh data w")
    case (Inl e)
    then show ?thesis by simp
  next
    case (Inr w')
    obtain es1 where es1: "trace w' = trace w @ es1" "\<forall>q e. RejectCalled q e \<notin> set es1"
      and f1: "closures w' = closures w" "next_promise w' = next_promise w"
      using onRemoteMessage_grows [OF Inr] by blast
    obtain es2 where es2: "trace (emit beh n data w') = trace w' @ es2" "\<forall>q e. RejectCalled q e \<notin> set es2"
      and f2: "closures (emit beh n data w') = closures w'" "next_promise (emit beh n data w') = next_promise w'"
      using Suc.IH [of w'] by blast
    have "trace (emit beh n data w') = trace w @ (es1 @ es2)" using es1 es2 by simp
    moreover have "\<forall>q e. RejectCalled q e \<notin> set (es1 @ es2)" using es1 es2 by simp
    ultimately show ?thesis using Inr f1 f2 by (simp del: append_assoc)
  qed
qed

lemma fire_grows:
  "(\<exists>es. trace (fire t w) = trace w @ es \<and> (\<forall>q. RejectCalled q SendError \<notin> set es))
   \<and> closures (fire t w) = closures w \<and> next_promise (fire t w) = next_promise w"
  by (cases "timers w t") (auto simp: fire_unfold)

lemma step_grows:
  "(\<exists>es. trace (step beh w i) = trace w @ es
         \<and> (p < next_promise w \<longrightarrow> RejectCalled p SendError \<notin> set es))
   \<and> (p < next_promise w \<longrightarrow> closures (step beh w i) p = closures w p)
   \<and> next_promise w \<le> next_promise (step beh w i)"
proof (cases i)
  case (Dispatch c payload opts rnd)
  let ?w2 = "snd (allocate opts (snd (allocate payload w)))"
  have "trace ?w2 = trace w" "closures ?w2 = closures w" "next_promise ?w2 = next_promise w"
    by (simp_all add: allocate_is_clone)
  with dispatch_trace [of beh c "fst (allocate payload w)" "fst (allocate opts (snd (allocate payload w)))" rnd ?w2]
    dispatch_closures [of p ?w2 beh c "fst (allocate payload w)" "fst (allocate opts (snd (allocate payload w)))" rnd]
  show ?thesis
    by (auto simp: Dispatch split_beta dispatch_next_promise)
next
  case (RemoteMessage data)
  let ?w1 = "snd (allocate data w)"
  have "trace ?w1 = trace w" "closures ?w1 = closures w" "next_promise ?w1 = next_promise w"
    by (simp_all add: allocate_is_clone)
  with emit_grows [of beh "listeners ?w1" "fst (allocate data w)" ?w1]
  show ?thesis by (auto simp: RemoteMessage split_beta)
next
  case (Attach x)
  then show ?thesis by (auto simp: attach_def split: remote_arg.splits)
next
  case (TimerFires t)
  with fire_grows [of t w] show ?thesis by auto
qed simp_all

lemma run_grows:
  "(\<exists>es. trace (run beh w ins) = trace w @ es
         \<and> (p < next_promise w \<longrightarrow> RejectCalled p SendError \<notin> set es))
   \<and> (p < next_promise w \<longrightarrow> closures (run beh w ins) p = closures w p)
   \<and> next_promise w \<le> next_promise (run beh w ins)"
proof (induction ins arbitrary: w)
  case Nil
  show ?case by (simp add: run_def)
next
  case (Cons i ins)
  let ?w1 = "step beh w i"
  have r: "run beh w (i # ins) = run beh ?w1 ins" by (simp add: run_def)
  obtain es1 where es1: "trace ?w1 = trace w @ es1"
    "p < next_promise w \<longrightarrow> RejectCalled p SendError \<notin> set es1"
    and f1: "p < next_promise w \<longrightarrow> closures ?w1 p = closures w p"
      "next_promise w \<le> next_promise ?w1"
    using step_grows [of beh w i p] by blast
  obtain es2 where es2: "trace (run beh ?w1 ins) = trace ?w1 @ es2"
    "p < next_promise ?w1 \<longrightarrow> RejectCalled p SendError \<notin> set es2"
    and f2: "p < next_promise ?w1 \<longrightarrow> closures (run beh ?w1 ins) p = closures ?w1 p"
      "next_promise ?w1 \<le> next_promise (run beh ?w1 ins)"
    using Cons.IH [of ?w1] by blast
  have "trace (run beh ?w1 ins) = trace w @ (es1 @ es2)" using es1(1) es2(1) by simp
  moreover have "p < next_promise w \<longrightarrow> RejectCalled p SendError \<notin> set (es1 @ es2)"
    using es1(2) es2(2) f1(2) by auto
  moreover have "p < next_promise w \<longrightarrow> closures (run beh ?w1 ins) p = closures w p"
    using f1 f2 by auto
  moreover have "next_promise w \<le> next_promise (run beh ?w1 ins)"
    using f1(2) f2(2) by simp
  ultimately show ?case unfolding r by blast
qed

lemma run_append: "run beh w (ins @ ins') = run beh (run beh w ins) ins'"
  by (simp add: run_def)

lemma phases_follow:
  assumes "in_phase p w ph" "in_phase p w' ph'"
    and "trace w' = trace w @ es"
    and "p < next_promise w \<longrightarrow> RejectCalled p SendError \<notin> set es"
    and "p < next_promise w \<longrightarrow> closures w' p = closures w p"
  shows "follows ph ph'"
proof (cases "ph = NeverCalled")
  case True
  then show ?thesis by simp
next
  case False
  with assms(1) have b: "p < next_promise w" by (simp add: in_phase_def)
  with assms(5) have cl: "closures w' p = closures w p" by simp
  define new where "new = filter (about p (snd (closures w p))) es"
  from b assms(4) have "RejectCalled p SendError \<notin> set new"
    by (simp add: new_def)
  moreover from history_extend [OF assms(3) cl] assms(1,2)
  have "expected_history p (fst (closures w p)) (snd (closures w p)) ph'
         = expected_history p (fst (closures w p)) (snd (closures w p)) ph @ new"
    by (simp add: in_phase_def cl new_def)
  ultimately show ?thesis
    using False by (cases ph; cases ph') (auto simp: send_failure_def split: if_splits)
qed

lemma follows_in_run:
  assumes "orderly w" "in_phase p w ph"
  shows "\<exists>ph'. in_phase p (run beh w ins) ph' \<and> follows ph ph'"
proof -
  have "orderly (run beh w ins)" by (rule orderly_run [OF assms(1)])
  then obtain ph' where ph': "in_phase p (run beh w ins) ph'"
    using phase_exists by blast
  obtain es where "trace (run beh w ins) = trace w @ es"
    and "p < next_promise w \<longrightarrow> RejectCalled p SendError \<notin> set es"
    and "p < next_promise w \<longrightarrow> closures (run beh w ins) p = closures w p"
    using run_grows [of beh w ins p] by blast
  then have "follows ph ph'"
    by (rule phases_follow [OF assms(2) ph'])
  with ph' show ?thesis by blast
qed





section \<open>The registry\<close>

lemma registry_ok_subscribe: "registry_ok w \<Longrightarrow> registry_ok (snd (subscribe c cb w))"
  by (auto simp: registry_ok_def subscribe_channels set_add_def split: option.splits)

lemma registry_ok_unsubscribe: "registry_ok w \<Longrightarrow> registry_ok (unsubscribe c cb w)"
  by (simp add: registry_ok_def unsubscribe_channels split: option.splits)

lemma registry_ok_invoke: "registry_ok w \<Longrightarrow> registry_ok (snd (invoke beh cb a r w))"
proof (cases cb)
  case (User u)
  assume "registry_ok w"
  with User show ?thesis
    by (simp add: registry_ok_def split: behaviour.splits)
next
  case (ReturnPath p)
  assume "registry_ok w"
  then have "registry_ok (unsubscribe (fst (closures w p)) (ReturnPath p) w)"
    by (rule registry_ok_unsubscribe)
  with ReturnPath show ?thesis
    by (simp add: registry_ok_def)
qed

lemma registry_ok_deliver: "registry_ok w \<Longrightarrow> registry_ok (snd (deliver beh cbs v r w))"
proof (induction cbs arbitrary: w)
  case Nil
  then show ?case by simp
next
  case (Cons cb cbs)
  let ?w1 = "log (Invoked cb (fst (clone v w)) r) (snd (clone v w))"
  have "registry_ok ?w1" using Cons.prems by (simp add: registry_ok_def)
  then have "registry_ok (snd (invoke beh cb (fst (clone v w)) r ?w1))"
    by (rule registry_ok_invoke)
  with Cons.IH show ?case by (simp add: deliver_Cons del: clone_changes)
qed

lemma registry_ok_localDispatch: "registry_ok w \<Longrightarrow> registry_ok (localDispatch beh c v r w)"
  by (simp add: localDispatch_def registry_ok_deliver split: option.splits)

lemma registry_ok_relay:
  "registry_ok w \<Longrightarrow> registry_ok (caught p (relay rs c v r w))"
  by (simp add: registry_ok_def)

lemma registry_ok_dispatch:
  assumes "registry_ok w"
  shows "registry_ok (snd (dispatch beh c v opts rnd w))"
proof -
  have p: "registry_ok (promised w)" using assms by (simp add: registry_ok_def)
  show ?thesis
  proof (cases "truthy (option_field opts ''waiting'')")
    case True
    have "registry_ok (await_reply (next_promise w) rc d (promised w))" for rc d
      using registry_ok_subscribe [OF p, of rc "ReturnPath (next_promise w)"]
      by (simp add: registry_ok_def)
    then show ?thesis
      unfolding dispatch_waiting [OF True] snd_conv
      by (intro registry_ok_relay registry_ok_localDispatch)
  next
    case False
    have "registry_ok (resolve (next_promise w) JUndefined (promised w))"
      using p by (simp add: registry_ok_def)
    then show ?thesis
      unfolding dispatch_not_waiting [OF False] snd_conv
      by (intro registry_ok_relay registry_ok_localDispatch)
  qed
qed

lemma registry_ok_fire: "registry_ok w \<Longrightarrow> registry_ok (fire t w)"
proof (cases "timers w t")
  case None
  assume "registry_ok w"
  with None show ?thesis by simp
next
  case (Some qd)
  assume ok: "registry_ok w"
  obtain q d where "timers w t = Some (q, d)" using Some by (cases qd) simp
  from fire_unfold [OF this]
  have "channels (fire t w) = channels (unsubscribe (fst (closures w q)) (ReturnPath q) w)"
    by (simp add: unsubscribe_channels split: option.splits)
  with registry_ok_unsubscribe [OF ok, of "fst (closures w q)" "ReturnPath q"] show ?thesis
    by (simp add: registry_ok_def)
qed

lemma registry_ok_emit: "registry_ok w \<Longrightarrow> registry_ok (emit beh n data w)"
proof (induction n arbitrary: w)
  case 0
  then show ?case by simp
next
  case (Suc n)
  show ?case
  proof (cases "onRemoteMessage beh data w")
    case (Inl e)
    with Suc.prems show ?thesis by simp
  next
    case (Inr w')
    then consider "w' = w" | c v r where "w' = localDispatch beh c v r w"
      by (auto simp: onRemoteMessage_def split: sum.splits bool.splits jsval.splits)
    then have "registry_ok w'"
      using Suc.prems by cases (simp_all add: registry_ok_localDispatch)
    with Suc.IH Inr show ?thesis by simp
  qed
qed

lemma registry_ok_step: "registry_ok w \<Longrightarrow> registry_ok (step beh w i)"
proof (cases i)
  case (Dispatch c payload opts rnd)
  assume "registry_ok w"
  then have "registry_ok (snd (allocate opts (snd (allocate payload w))))"
    by (simp add: registry_ok_def allocate_is_clone)
  then show ?thesis
    unfolding Dispatch step.simps Let_def split_beta by (rule registry_ok_dispatch)
next
  case (RemoteMessage data)
  assume "registry_ok w"
  then have "registry_ok (snd (allocate data w))"
    by (simp add: registry_ok_def allocate_is_clone)
  then show ?thesis
    unfolding RemoteMessage step.simps Let_def split_beta by (rule registry_ok_emit)
next
  case (Attach x)
  assume "registry_ok w"
  with Attach show ?thesis
    by (auto simp: attach_def registry_ok_def split: remote_arg.splits)
next
  case (TransportChanges x b)
  assume "registry_ok w"
  with TransportChanges show ?thesis by (simp add: registry_ok_def)
qed (simp_all add: registry_ok_subscribe registry_ok_unsubscribe registry_ok_fire)

lemma registry_ok_run: "registry_ok w \<Longrightarrow> registry_ok (run beh w ins)"
  unfolding run_def by (induction ins arbitrary: w) (simp_all add: registry_ok_step)

lemma registry_ok_reachable:
  "constructor r x = Inr w0 \<Longrightarrow> registry_ok (run beh w0 ins)"
  by (rule registry_ok_run) (simp add: registry_ok_def constructor_fields)

lemma unsubscribe_absent:
  assumes "registry_ok w" "cb \<notin> subscribers_of w c"
  shows "unsubscribe c cb w = w"
proof (cases "channels w c")
  case None
  then show ?thesis by (simp add: unsubscribe_def)
next
  case (Some s)
  with assms(2) have "removeAll cb s = s" by (simp add: subscribers_of_def)
  moreover from assms(1) Some have "s \<noteq> []" by (auto simp: registry_ok_def)
  ultimately show ?thesis
    using Some by (simp add: unsubscribe_def set_delete_def Let_def fun_upd_idem)
qed

lemma unsubscribe_twice: "unsubscribe c cb (unsubscribe c cb w) = unsubscribe c cb w"
proof (cases "channels w c")
  case None
  then show ?thesis by (simp add: unsubscribe_def)
next
  case (Some s)
  show ?thesis
  proof (cases "removeAll cb s = []")
    case True
    with Some show ?thesis by (simp add: unsubscribe_def set_delete_def Let_def)
  next
    case False
    with Some show ?thesis by (simp add: unsubscribe_def set_delete_def Let_def)
  qed
qed

text \<open>
  C4. A bus the constructor returns has an empty registry, and in every state it can reach
  from there, by calls of \<open>subscribe\<close> and
  \<open>unsubscribe\<close> and by whatever else can happen to it, a channel is in the registry if and
  only if it has a subscriber. \<open>subscribe\<close> leaves the channel in the registry, with the
  callback among its subscribers; \<open>unsubscribe\<close> leaves the channel out of the registry
  exactly when no subscriber but the one it removes was there.
\<close>

theorem channel_present_iff_subscribed:
  assumes "constructor r x = Inr w0"
  shows "channels w0 = Map.empty
   \<and> (channels (run beh w0 ins) c \<noteq> None) = (subscribers_of (run beh w0 ins) c \<noteq> {})
   \<and> channels (snd (subscribe c cb w)) c \<noteq> None
   \<and> cb \<in> subscribers_of (snd (subscribe c cb w)) c
   \<and> (channels (unsubscribe c cb w) c = None) = (subscribers_of w c \<subseteq> {cb})"
proof -
  have "(channels (run beh w0 ins) c \<noteq> None) = (subscribers_of (run beh w0 ins) c \<noteq> {})"
    using registry_ok_reachable [OF assms, of beh ins]
    by (auto simp: registry_ok_def subscribers_of_def split: option.splits)
  moreover have "(channels (unsubscribe c cb w) c = None) = (subscribers_of w c \<subseteq> {cb})"
  proof (cases "channels w c")
    case None
    then show ?thesis by (simp add: unsubscribe_channels subscribers_of_def)
  next
    case (Some s)
    have "(removeAll cb s = []) = (set s \<subseteq> {cb})"
      by (induction s) auto
    with Some show ?thesis
      by (simp add: unsubscribe_channels subscribers_of_def set_delete_def)
  qed
  ultimately show ?thesis
    by (simp add: subscribe_channels subscribers_of_subscribe constructor_fields [OF assms])
qed

theorem channel_present_iff_subscribed_witness:
  "constructor False None = Inr (empty_world False)
   \<and> channels (run well_behaved (empty_world False) [Subscribe ''news'' 1, Subscribe ''news'' 2]) ''news''
       \<noteq> None
   \<and> subscribers_of (run well_behaved (empty_world False) [Subscribe ''news'' 1, Subscribe ''news'' 2]) ''news''
       \<noteq> {}
   \<and> channels (run well_behaved (empty_world False)
         [Subscribe ''news'' 1, Subscribe ''news'' 2, Unsubscribe ''news'' 1, Unsubscribe ''news'' 2]) ''news''
       = None
   \<and> subscribers_of (run well_behaved (empty_world False)
         [Subscribe ''news'' 1, Subscribe ''news'' 2, Unsubscribe ''news'' 1, Unsubscribe ''news'' 2]) ''news''
       = {}"
proof -
  have h: "constructor False None = Inr (empty_world False)"
    by (simp add: constructor_def)
  have a: "channels (run well_behaved (empty_world False) [Subscribe ''news'' 1, Subscribe ''news'' 2]) ''news''
       \<noteq> None"
    by (simp add: run_def subscribe_channels)
  have b: "channels (run well_behaved (empty_world False)
         [Subscribe ''news'' 1, Subscribe ''news'' 2, Unsubscribe ''news'' 1, Unsubscribe ''news'' 2]) ''news''
       = None"
    by (simp add: run_def subscribe_channels unsubscribe_channels set_add_def set_delete_def)
  from a b h show ?thesis
    using channel_present_iff_subscribed [OF h, of well_behaved "[Subscribe ''news'' 1, Subscribe ''news'' 2]" "''news''"]
      channel_present_iff_subscribed [OF h, of well_behaved
        "[Subscribe ''news'' 1, Subscribe ''news'' 2, Unsubscribe ''news'' 1, Unsubscribe ''news'' 2]" "''news''"]
    by blast
qed

text \<open>
  C9. A second \<open>unsubscribe\<close> of the same pair changes nothing, and neither does an
  \<open>unsubscribe\<close> of a pair that is not subscribed, be the channel known or not, in any
  state a bus can reach. \<open>unsubscribe\<close> has no statement that throws: it returns a state for
  every input.
\<close>

theorem unsubscribe_idempotent:
  assumes "constructor r x = Inr w0"
    and "cb \<notin> subscribers_of (run beh w0 ins) c"
  shows "unsubscribe c cb (run beh w0 ins) = run beh w0 ins
   \<and> unsubscribe c' cb' (unsubscribe c' cb' w) = unsubscribe c' cb' w"
  using unsubscribe_twice unsubscribe_absent [OF registry_ok_reachable [OF assms(1)] assms(2)]
  by blast

lemma subscribers_of_empty [simp]: "subscribers_of (empty_world r) c = {}"
  by (simp add: subscribers_of_def)

theorem unsubscribe_idempotent_witness:
  "constructor False None = Inr (empty_world False)
   \<and> User 2 \<notin> subscribers_of (run well_behaved (empty_world False) [Subscribe ''news'' 1]) ''news''
   \<and> User 1 \<notin> subscribers_of (run well_behaved (empty_world False) [Subscribe ''news'' 1]) ''other''
   \<and> unsubscribe ''news'' (User 2) (run well_behaved (empty_world False) [Subscribe ''news'' 1])
       = run well_behaved (empty_world False) [Subscribe ''news'' 1]
   \<and> unsubscribe ''other'' (User 1) (run well_behaved (empty_world False) [Subscribe ''news'' 1])
       = run well_behaved (empty_world False) [Subscribe ''news'' 1]
   \<and> unsubscribe ''news'' (User 1)
         (unsubscribe ''news'' (User 1) (run well_behaved (empty_world False) [Subscribe ''news'' 1]))
       = unsubscribe ''news'' (User 1) (run well_behaved (empty_world False) [Subscribe ''news'' 1])"
proof -
  let ?w = "run well_behaved (empty_world False) [Subscribe ''news'' 1]"
  have h: "constructor False None = Inr (empty_world False)"
    by (simp add: constructor_def)
  have h1: "User 2 \<notin> subscribers_of ?w ''news''"
    by (simp add: run_def subscribers_of_subscribe)
  have h2: "User 1 \<notin> subscribers_of ?w ''other''"
    by (simp add: run_def subscribers_of_subscribe)
  show ?thesis
    using unsubscribe_idempotent [OF h h1, of "''news''" "User 1" ?w]
      unsubscribe_idempotent [OF h h2]
      h h1 h2
    by blast
qed

section \<open>The deadline of a waiting call\<close>

text \<open>
  C2, as amended. A waiting \<open>dispatch\<close> arms its timer with the delay \<open>timeout || 15000\<close>: the
  \<open>timeout\<close> given when that is truthy, 15000 when it is left out or falsy. Whatever happens
  next, the call is waiting with that deadline, answered, or timed out. While it is
  waiting (no reply has come) its timer is armed, and when the timer fires the closure is
  subscribed to no channel and the promise is rejected: with the time-out error when every
  \<open>send\<close> of the call returned, and with the exception of the \<open>send\<close> that threw otherwise,
  as it was when the call returned.
\<close>

theorem unanswered_request_times_out:
  assumes "constructor r x = Inr w0"
    and "truthy (option_field opts ''waiting'')"
  shows "fst (dispatch beh c payload opts rnd (run beh w0 ins))
           = next_promise (run beh w0 ins)
     \<and> deadline (option_field opts ''timeout'')
           = (if truthy (option_field opts ''timeout'') then option_field opts ''timeout'' else JNum 15000)
     \<and> (\<exists>ph. in_phase (next_promise (run beh w0 ins))
                (run beh (snd (dispatch beh c payload opts rnd (run beh w0 ins))) ins') ph
             \<and> follows (Awaiting (failing (transport (run beh w0 ins)) (remotes (run beh w0 ins)) \<noteq> None)
                          (deadline (option_field opts ''timeout''))) ph)
     \<and> (in_phase (next_promise (run beh w0 ins))
           (run beh (snd (dispatch beh c payload opts rnd (run beh w0 ins))) ins')
           (Awaiting (failing (transport (run beh w0 ins)) (remotes (run beh w0 ins)) \<noteq> None)
              (deadline (option_field opts ''timeout'')))
         \<longrightarrow> (\<exists>t. timers (run beh (snd (dispatch beh c payload opts rnd (run beh w0 ins))) ins') t
                    = Some (next_promise (run beh w0 ins), deadline (option_field opts ''timeout''))
                 \<and> promises (fire t (run beh (snd (dispatch beh c payload opts rnd (run beh w0 ins))) ins'))
                      (next_promise (run beh w0 ins))
                    = Some (if failing (transport (run beh w0 ins)) (remotes (run beh w0 ins)) = None
                            then Rejected TimeOut else Rejected SendError)
                 \<and> (\<forall>c'. ReturnPath (next_promise (run beh w0 ins))
                       \<notin> subscribers_of
                           (fire t (run beh (snd (dispatch beh c payload opts rnd (run beh w0 ins))) ins')) c')
                 \<and> in_phase (next_promise (run beh w0 ins))
                      (fire t (run beh (snd (dispatch beh c payload opts rnd (run beh w0 ins))) ins'))
                      (TimedOut (failing (transport (run beh w0 ins)) (remotes (run beh w0 ins)) \<noteq> None)
                         (deadline (option_field opts ''timeout'')))))"
proof -
  let ?W = "run beh w0 ins"
  let ?p = "next_promise ?W"
  let ?d = "deadline (option_field opts ''timeout'')"
  let ?b = "failing (transport ?W) (remotes ?W) \<noteq> None"
  let ?W1 = "snd (dispatch beh c payload opts rnd ?W)"
  let ?W2 = "run beh ?W1 ins'"
  have oW: "orderly ?W" by (rule orderly_reachable [OF assms(1)])
  have o1: "orderly ?W1" by (rule dispatch_phases(1) [OF oW])
  have p1: "in_phase ?p ?W1 (Awaiting ?b ?d)"
    using dispatch_phases(2) [OF oW, of beh c payload opts rnd] assms(2) by simp
  have fo: "\<exists>ph. in_phase ?p ?W2 ph \<and> follows (Awaiting ?b ?d) ph"
    by (rule follows_in_run [OF o1 p1])
  have out: "\<exists>t. timers ?W2 t = Some (?p, ?d)
      \<and> promises (fire t ?W2) ?p = Some (if failing (transport ?W) (remotes ?W) = None
                                         then Rejected TimeOut else Rejected SendError)
      \<and> (\<forall>c'. ReturnPath ?p \<notin> subscribers_of (fire t ?W2) c')
      \<and> in_phase ?p (fire t ?W2) (TimedOut ?b ?d)"
    if a: "in_phase ?p ?W2 (Awaiting ?b ?d)"
  proof -
    from fire_times_out [OF a] have t: "in_phase ?p (fire (snd (closures ?W2 ?p)) ?W2) (TimedOut ?b ?d)" .
    from a have "timers ?W2 (snd (closures ?W2 ?p)) = Some (?p, ?d)" by (simp add: in_phase_def)
    moreover from t have "promises (fire (snd (closures ?W2 ?p)) ?W2) ?p
         = Some (if failing (transport ?W) (remotes ?W) = None then Rejected TimeOut else Rejected SendError)"
      and "\<forall>c'. ReturnPath ?p \<notin> subscribers_of (fire (snd (closures ?W2 ?p)) ?W2) c'"
      by (simp_all add: in_phase_def)
    ultimately show ?thesis using t by blast
  qed
  have "fst (dispatch beh c payload opts rnd ?W) = ?p" by simp
  moreover have "?d = (if truthy (option_field opts ''timeout'') then option_field opts ''timeout'' else JNum 15000)"
    by (simp add: deadline_def)
  ultimately show ?thesis
    using fo out by blast
qed

theorem unanswered_request_times_out_witness:
  "constructor False (Some (BrowserWindow 7))
     = Inr ((empty_world False)\<lparr>remotes := [WebContents 7], listeners := 1\<rparr>)
   \<and> truthy (option_field (JObj 0 [(''waiting'', JBool True), (''timeout'', JNum 50)]) ''waiting'')
   \<and> in_phase 0
        (run well_behaved
           (snd (dispatch well_behaved ''ask'' JNull (JObj 0 [(''waiting'', JBool True), (''timeout'', JNum 50)]) 71
                   (run well_behaved ((empty_world False)\<lparr>remotes := [WebContents 7], listeners := 1\<rparr>)
                      [])))
           [])
        (Awaiting False (JNum 50))
   \<and> (\<exists>t. timers
              (run well_behaved
           (snd (dispatch well_behaved ''ask'' JNull (JObj 0 [(''waiting'', JBool True), (''timeout'', JNum 50)]) 71
                   (run well_behaved ((empty_world False)\<lparr>remotes := [WebContents 7], listeners := 1\<rparr>)
                      [])))
           []) t
            = Some (0, JNum 50)
          \<and> promises
               (fire t (run well_behaved
           (snd (dispatch well_behaved ''ask'' JNull (JObj 0 [(''waiting'', JBool True), (''timeout'', JNum 50)]) 71
                   (run well_behaved ((empty_world False)\<lparr>remotes := [WebContents 7], listeners := 1\<rparr>)
                      [])))
           [])) 0
            = Some (Rejected TimeOut)
          \<and> (\<forall>c'. ReturnPath 0 \<notin> subscribers_of
               (fire t (run well_behaved
           (snd (dispatch well_behaved ''ask'' JNull (JObj 0 [(''waiting'', JBool True), (''timeout'', JNum 50)]) 71
                   (run well_behaved ((empty_world False)\<lparr>remotes := [WebContents 7], listeners := 1\<rparr>)
                      [])))
           [])) c'))
   \<and> in_phase 0
        (run well_behaved
           (snd (dispatch well_behaved ''ask'' JNull (JObj 0 [(''waiting'', JBool True), (''timeout'', JNum 50)]) 71
                   (run well_behaved ((empty_world False)\<lparr>remotes := [WebContents 7], listeners := 1\<rparr>)
                      [TransportChanges (WebContents 7) Throws])))
           [])
        (Awaiting True (JNum 50))
   \<and> (\<exists>t. timers
              (run well_behaved
           (snd (dispatch well_behaved ''ask'' JNull (JObj 0 [(''waiting'', JBool True), (''timeout'', JNum 50)]) 71
                   (run well_behaved ((empty_world False)\<lparr>remotes := [WebContents 7], listeners := 1\<rparr>)
                      [TransportChanges (WebContents 7) Throws])))
           []) t
            = Some (0, JNum 50)
          \<and> promises
               (fire t (run well_behaved
           (snd (dispatch well_behaved ''ask'' JNull (JObj 0 [(''waiting'', JBool True), (''timeout'', JNum 50)]) 71
                   (run well_behaved ((empty_world False)\<lparr>remotes := [WebContents 7], listeners := 1\<rparr>)
                      [TransportChanges (WebContents 7) Throws])))
           [])) 0
            = Some (Rejected SendError)
          \<and> (\<forall>c'. ReturnPath 0 \<notin> subscribers_of
               (fire t (run well_behaved
           (snd (dispatch well_behaved ''ask'' JNull (JObj 0 [(''waiting'', JBool True), (''timeout'', JNum 50)]) 71
                   (run well_behaved ((empty_world False)\<lparr>remotes := [WebContents 7], listeners := 1\<rparr>)
                      [TransportChanges (WebContents 7) Throws])))
           [])) c'))"
proof -
  let ?o = "JObj 0 [(''waiting'', JBool True), (''timeout'', JNum 50)]"
  let ?init = "(empty_world False)\<lparr>remotes := [WebContents 7], listeners := 1\<rparr>"
  let ?W = "run well_behaved ?init []"
  let ?V = "run well_behaved ?init [TransportChanges (WebContents 7) Throws]"
  let ?W2 = "run well_behaved (snd (dispatch well_behaved ''ask'' JNull ?o 71 ?W)) []"
  let ?V2 = "run well_behaved (snd (dispatch well_behaved ''ask'' JNull ?o 71 ?V)) []"
  have c: "constructor False (Some (BrowserWindow 7)) = Inr ?init"
    by (rule constructor_window)
  have h: "truthy (option_field ?o ''waiting'')" by (simp add: option_field_def)
  have d: "deadline (option_field ?o ''timeout'') = JNum 50" by (simp add: option_field_def deadline_def)
  have p: "next_promise ?W = 0" "next_promise ?V = 0" by (simp_all add: run_def)
  have b: "failing (transport ?W) (remotes ?W) = None"
    "failing (transport ?V) (remotes ?V) = Some (WebContents 7)"
    by (simp_all add: run_def)
  note u = unanswered_request_times_out [OF c h, of well_behaved "''ask''" JNull 71 "[]" "[]",
      unfolded d p b]
  note u' = unanswered_request_times_out [OF c h, of well_behaved "''ask''" JNull 71
      "[TransportChanges (WebContents 7) Throws]" "[]", unfolded d p b]
  have t: "(\<exists>ph. in_phase 0 ?W2 ph \<and> follows (Awaiting False (JNum 50)) ph)
      \<and> (in_phase 0 ?W2 (Awaiting False (JNum 50))
           \<longrightarrow> (\<exists>t. timers ?W2 t = Some (0, JNum 50)
                 \<and> promises (fire t ?W2) 0 = Some (Rejected TimeOut)
                 \<and> (\<forall>c'. ReturnPath 0 \<notin> subscribers_of (fire t ?W2) c')))"
    using u by auto
  have t': "(\<exists>ph. in_phase 0 ?V2 ph \<and> follows (Awaiting True (JNum 50)) ph)
      \<and> (in_phase 0 ?V2 (Awaiting True (JNum 50))
           \<longrightarrow> (\<exists>t. timers ?V2 t = Some (0, JNum 50)
                 \<and> promises (fire t ?V2) 0 = Some (Rejected SendError)
                 \<and> (\<forall>c'. ReturnPath 0 \<notin> subscribers_of (fire t ?V2) c')))"
    using u' by auto
  from t obtain ph where ph: "in_phase 0 ?W2 ph" "follows (Awaiting False (JNum 50)) ph" by blast
  from t' obtain ph' where ph': "in_phase 0 ?V2 ph'" "follows (Awaiting True (JNum 50)) ph'" by blast
  have "timers ?W2 (snd (closures ?W2 0)) = Some (0, JNum 50)"
    by (simp add: run_def dispatch_waiting [OF h] d localDispatch_def subscribe_channels)
  with ph have a: "in_phase 0 ?W2 (Awaiting False (JNum 50))"
    by (cases ph) (auto simp: in_phase_def)
  have "timers ?V2 (snd (closures ?V2 0)) = Some (0, JNum 50)"
    by (simp add: run_def dispatch_waiting [OF h] d localDispatch_def subscribe_channels)
  with ph' have a': "in_phase 0 ?V2 (Awaiting True (JNum 50))"
    by (cases ph') (auto simp: in_phase_def)
  from a a' t t' h c show ?thesis by blast
qed

text \<open>
  C2, as stated, fails for the timeout 0: the timer is armed with the delay 15000.
\<close>

theorem zero_timeout_arms_fifteen_seconds:
  "timers (run well_behaved (empty_world False)
      [Dispatch ''ask'' JNull (JObj 0 [(''waiting'', JBool True), (''timeout'', JNum 0)]) 71]) 1
   = Some (0, JNum 15000)"
  by (simp add: run_def subscribe_def set_add_def dispatch_def localDispatch_def option_field_def
        allocate_def log_def setTimeout_def deadline_def Let_def split_beta)

end
